theory Spec2Isabelle
  imports Complex_Main
begin

section \<open>Data model\<close>

text \<open>
  States and input symbols are Python strings in the source (\<open>"Alive"\<close>, \<open>"Dying"\<close>,
  \<open>"Stable"\<close>, \<open>"Chaotic"\<close>; \<open>"L"\<close>, \<open>"M"\<close>, \<open>"H"\<close>) and stay strings here, so that
  a lookup with an unknown key is a \<open>KeyError\<close> of the model as it is of the program.
  Python floats are idealised as reals: the source only compares them, subtracts
  \<open>branch_prob\<close> from 1 and passes them to \<open>random.choices\<close>.
\<close>

datatype error = KeyError | ValueError | IndexError

text \<open>\<open>NFACellAgent\<close> (agent.py): the grid position Mesa stores in \<open>pos\<close>, the visible
  state and the staged next state.\<close>

record NFACellAgent =
  pos :: "int \<times> int"
  state :: string
  next_state :: string

text \<open>
  \<open>NFACAModel\<close> (model.py). \<open>agents\<close> is \<open>schedule.agents\<close> in insertion order; the
  grid holds the same objects and is read through their \<open>pos\<close>. \<open>model_vars\<close> is the
  data collector's time series, one tuple (Alive, Dying, Stable, Chaotic) per collection.
  The module-level generator \<open>random\<close> is the infinite sequence \<open>random_draws\<close> of the
  values \<open>random.random()\<close> returns, with the number \<open>random_pos\<close> of draws used so far.
\<close>

record NFACAModel =
  width :: nat
  height :: nat
  branch_prob :: real
  chaos_bias :: real
  disable_chaotic :: int
  agents :: "NFACellAgent list"
  model_vars :: "(nat \<times> nat \<times> nat \<times> nat) list"
  random_draws :: "nat \<Rightarrow> real"
  random_pos :: nat

section \<open>The transition table and its rewiring\<close>

text \<open>\<open>self.BASE_TRANSITIONS\<close> (model.py, lines 56-77), as the dictionary's items in
  insertion order.\<close>

definition BASE_TRANSITIONS :: "((string \<times> string) \<times> string list) list" where
  "BASE_TRANSITIONS =
    [((''Alive'', ''L''), [''Alive'', ''Stable'']),
     ((''Alive'', ''M''), [''Dying'', ''Chaotic'']),
     ((''Alive'', ''H''), [''Chaotic'', ''Dying'']),
     ((''Dying'', ''L''), [''Stable'', ''Alive'']),
     ((''Dying'', ''M''), [''Chaotic'', ''Alive'']),
     ((''Dying'', ''H''), [''Chaotic'', ''Dying'']),
     ((''Stable'', ''L''), [''Alive'', ''Stable'']),
     ((''Stable'', ''M''), [''Dying'', ''Stable'']),
     ((''Stable'', ''H''), [''Chaotic'', ''Stable'']),
     ((''Chaotic'', ''L''), [''Stable'', ''Alive'']),
     ((''Chaotic'', ''M''), [''Alive'', ''Dying'']),
     ((''Chaotic'', ''H''), [''Chaotic'', ''Dying''])]"

text \<open>
  The body of the loop of \<open>get_transitions\<close>, lines 117-127: the copy of the base list,
  sorted by a Boolean key when the bias is above 0.7 or below 0.3. Python's \<open>sorted\<close> is
  stable and orders \<open>False\<close> before \<open>True\<close>, as \<open>sort_key\<close> does on \<open>bool\<close>.
\<close>

definition reorder :: "real \<Rightarrow> string list \<Rightarrow> string list" where
  "reorder cb states =
     (if cb > 7 / 10 then sort_key (\<lambda>s. s \<noteq> ''Chaotic'') states
      else if cb < 3 / 10 then sort_key (\<lambda>s. s = ''Chaotic'') states
      else states)"

text \<open>Lines 130-136: the pruning under a truthy \<open>disable_chaotic\<close>, and the fallback.\<close>

definition prune :: "int \<Rightarrow> string list \<Rightarrow> string list" where
  "prune dc reordered =
     (if dc \<noteq> 0 then
        (let kept = filter (\<lambda>s. s \<noteq> ''Chaotic'') reordered
         in if kept = [] then [''Stable''] else kept)
      else reordered)"

text \<open>The rewired table as a function of the two parameters it reads.\<close>

definition rewire :: "real \<Rightarrow> int \<Rightarrow> ((string \<times> string) \<times> string list) list" where
  "rewire cb dc = map (\<lambda>(key, states). (key, prune dc (reorder cb states))) BASE_TRANSITIONS"

definition get_transitions :: "NFACAModel \<Rightarrow> ((string \<times> string) \<times> string list) list" where
  "get_transitions m = rewire (chaos_bias m) (disable_chaotic m)"

text \<open>The reading of the specification for the reordering: a stable partition that puts
  the entries satisfying \<open>P\<close> first.\<close>

definition stable_partition :: "('a \<Rightarrow> bool) \<Rightarrow> 'a list \<Rightarrow> 'a list" where
  "stable_partition P xs = filter P xs @ filter (\<lambda>x. \<not> P x) xs"

section \<open>Weighted choice\<close>

text \<open>
  \<open>random.choices(population, weights=weights, k=1)[0]\<close> of the Python standard library,
  on the draw \<open>u\<close> that its call of \<open>random()\<close> returns: the running sums of the
  weights, the length check, the check of the total, and a bisection of the running sums
  at \<open>u * total\<close> between 0 and \<open>n - 1\<close>. The weights are reals here, so the two weights
  \<open>bp\<close> and \<open>1 - bp\<close> always sum to 1; in double precision they do so for every \<open>bp\<close> of
  the unit interval, and only for a \<open>bp\<close> so large that \<open>1 - bp\<close> rounds to \<open>- bp\<close>, or
  not finite, is the total rejected.
\<close>

function bisect_right :: "real list \<Rightarrow> real \<Rightarrow> nat \<Rightarrow> nat \<Rightarrow> nat" where
  "bisect_right a x lo hi =
     (if lo < hi then
        (let mid = (lo + hi) div 2
         in if x < a ! mid then bisect_right a x lo mid else bisect_right a x (mid + 1) hi)
      else lo)"
  by pat_completeness auto
termination
  by (relation "measure (\<lambda>(a, x, lo, hi). hi - lo)") auto

fun accumulate_from :: "real \<Rightarrow> real list \<Rightarrow> real list" where
  "accumulate_from tot [] = []"
| "accumulate_from tot (w # ws) = (tot + w) # accumulate_from (tot + w) ws"

definition accumulate :: "real list \<Rightarrow> real list" where
  "accumulate ws = (case ws of [] \<Rightarrow> [] | w # rest \<Rightarrow> w # accumulate_from w rest)"

definition choices_index :: "nat \<Rightarrow> real list \<Rightarrow> real \<Rightarrow> error + nat" where
  "choices_index n weights u =
     (let cum_weights = accumulate weights
      in if length cum_weights \<noteq> n then Inl ValueError
         else if cum_weights = [] then Inl IndexError
         else (let tot = last cum_weights
               in if tot \<le> 0 then Inl ValueError
                  else Inr (bisect_right cum_weights (u * tot) 0 (n - 1))))"

definition choices :: "'a list \<Rightarrow> real list \<Rightarrow> real \<Rightarrow> error + 'a" where
  "choices population weights u =
     (case choices_index (length population) weights u of
        Inl e \<Rightarrow> Inl e
      | Inr k \<Rightarrow> Inr (population ! k))"

section \<open>The cell\<close>

text \<open>agent.py, lines 38-43: the input symbol of the automaton from the number of
  Alive neighbours.\<close>

definition input_symbol :: "nat \<Rightarrow> string" where
  "input_symbol alive_neighbors =
     (if alive_neighbors \<le> 2 then ''L''
      else if alive_neighbors \<le> 4 then ''M''
      else ''H'')"

text \<open>agent.py, lines 54-67: one candidate is taken as it is, otherwise the weighted
  choice with the two weights \<open>branch_prob\<close> and \<open>1 - branch_prob\<close>, whatever the
  number of candidates.\<close>

definition resolve :: "real \<Rightarrow> string list \<Rightarrow> real \<Rightarrow> error + string" where
  "resolve bp possible_states u =
     (if length possible_states = 1 then Inr (possible_states ! 0)
      else choices possible_states [bp, 1 - bp] u)"

text \<open>The number of values \<open>resolve\<close> takes from the generator.\<close>

definition draws_used :: "string list \<Rightarrow> nat" where
  "draws_used possible_states = (if length possible_states = 1 then 0 else 1)"

text \<open>agent.py, lines 72-73: the override, which compares \<open>disable_chaotic\<close> with 1.\<close>

definition override :: "int \<Rightarrow> string \<Rightarrow> string" where
  "override dc chosen = (if dc = 1 \<and> chosen = ''Chaotic'' then ''Stable'' else chosen)"

text \<open>
  Modelled from the spec: the neighbourhood query of the grid, which is
  \<open>MultiGrid.get_neighbors(pos, moore=True, include_center=False)\<close> of the Mesa library
  and is not part of the repository's sources. The eight offsets around the position,
  wrapped modulo width and height, each coordinate once; the neighbours are the agents
  standing on those coordinates.
\<close>

definition torus_adj :: "NFACAModel \<Rightarrow> int \<times> int \<Rightarrow> int \<times> int" where
  "torus_adj m c = (fst c mod int (width m), snd c mod int (height m))"

definition get_neighborhood :: "NFACAModel \<Rightarrow> int \<times> int \<Rightarrow> (int \<times> int) list" where
  "get_neighborhood m p =
     remdups (map (torus_adj m)
       [(fst p + dx, snd p + dy). dy \<leftarrow> [-1, 0, 1], dx \<leftarrow> [-1, 0, 1], \<not> (dx = 0 \<and> dy = 0)])"

definition get_neighbors :: "NFACAModel \<Rightarrow> int \<times> int \<Rightarrow> NFACellAgent list" where
  "get_neighbors m p =
     concat (map (\<lambda>c. filter (\<lambda>a. pos a = c) (agents m)) (get_neighborhood m p))"

text \<open>
  \<open>NFACellAgent.step\<close> of the agent at index \<open>i\<close> of the schedule: it reads the model,
  writes the agent's own \<open>next_state\<close> and advances the generator. An unknown key of the
  table and a refused weighted choice are the exceptions of the source.
\<close>

definition NFACellAgent_step :: "NFACAModel \<Rightarrow> nat \<Rightarrow> error + NFACAModel" where
  "NFACellAgent_step m i =
     (let self = agents m ! i;
          neighbors = get_neighbors m (pos self);
          alive_neighbors = length (filter (\<lambda>n. state n = ''Alive'') neighbors);
          transitions = get_transitions m
      in case map_of transitions (state self, input_symbol alive_neighbors) of
           None \<Rightarrow> Inl KeyError
         | Some possible_states \<Rightarrow>
             (case resolve (branch_prob m) possible_states (random_draws m (random_pos m)) of
                Inl e \<Rightarrow> Inl e
              | Inr chosen \<Rightarrow>
                  Inr (m\<lparr>agents := (agents m)[i := self\<lparr>next_state := override (disable_chaotic m) chosen\<rparr>],
                         random_pos := random_pos m + draws_used possible_states\<rparr>)))"

text \<open>\<open>NFACellAgent.advance\<close>, lines 77-78.\<close>

definition advance :: "NFACellAgent \<Rightarrow> NFACellAgent" where
  "advance a = a\<lparr>state := next_state a\<rparr>"

section \<open>The simulation\<close>

text \<open>
  Modelled from the spec: the scheduler, which is \<open>SimultaneousActivation.step\<close> of the
  Mesa library and is not part of the repository's sources. Phase 1 calls \<open>step\<close> of
  every agent in schedule order, phase 2 calls \<open>advance\<close> of every agent.
\<close>

fun step_all :: "nat list \<Rightarrow> NFACAModel \<Rightarrow> error + NFACAModel" where
  "step_all [] m = Inr m"
| "step_all (i # rest) m =
     (case NFACellAgent_step m i of Inl e \<Rightarrow> Inl e | Inr m' \<Rightarrow> step_all rest m')"

definition advance_all :: "NFACAModel \<Rightarrow> NFACAModel" where
  "advance_all m = m\<lparr>agents := map advance (agents m)\<rparr>"

definition schedule_step :: "NFACAModel \<Rightarrow> error + NFACAModel" where
  "schedule_step m =
     (case step_all [0..<length (agents m)] m of
        Inl e \<Rightarrow> Inl e
      | Inr m' \<Rightarrow> Inr (advance_all m'))"

text \<open>\<open>NFACAModel.count_state\<close>, lines 153-155.\<close>

definition count_state :: "NFACAModel \<Rightarrow> string \<Rightarrow> nat" where
  "count_state m s = length (filter (\<lambda>a. state a = s) (agents m))"

text \<open>The four model reporters of the data collector, lines 100-105.\<close>

definition reporters :: "NFACAModel \<Rightarrow> nat \<times> nat \<times> nat \<times> nat" where
  "reporters m =
     (count_state m ''Alive'', count_state m ''Dying'',
      count_state m ''Stable'', count_state m ''Chaotic'')"

text \<open>
  Modelled from the spec: the collection, which is \<open>DataCollector.collect\<close> of the Mesa
  library and is not part of the repository's sources. It evaluates the reporters on the
  model and appends their values to the series.
\<close>

definition collect :: "NFACAModel \<Rightarrow> NFACAModel" where
  "collect m = m\<lparr>model_vars := model_vars m @ [reporters m]\<rparr>"

text \<open>\<open>NFACAModel.step\<close>, lines 145-150.\<close>

definition NFACAModel_step :: "NFACAModel \<Rightarrow> error + NFACAModel" where
  "NFACAModel_step m = schedule_step (collect m)"

text \<open>
  \<open>NFACAModel.__init__\<close>, lines 26-106, on the values \<open>draws\<close> of a fresh generator. The
  nested loops visit \<open>x\<close> then \<open>y\<close>; the cell visited \<open>k\<close>-th takes the \<open>k\<close>-th draw.
  No statement of the constructor raises, so the result is always \<open>Inr\<close>.
\<close>

definition NFACAModel_init ::
  "real \<Rightarrow> real \<Rightarrow> real \<Rightarrow> int \<Rightarrow> (nat \<Rightarrow> real) \<Rightarrow> error + NFACAModel" where
  "NFACAModel_init initial_alive bp cb dc draws =
     (let w = 20; h = 20;
          cells = concat (map (\<lambda>x. map (\<lambda>y. (x, y)) [0..<h]) [0..<w]);
          new_agent = (\<lambda>(k, (x, y)).
            (let st = (if draws k < initial_alive then ''Alive'' else ''Stable'')
             in \<lparr>pos = (int x, int y), state = st, next_state = st\<rparr>))
      in Inr \<lparr>width = w, height = h, branch_prob = bp, chaos_bias = cb,
              disable_chaotic = dc, agents = map new_agent (enumerate 0 cells),
              model_vars = [], random_draws = draws, random_pos = length cells\<rparr>)"

text \<open>\<open>n\<close> calls of \<open>step\<close> on a model.\<close>

fun steps :: "nat \<Rightarrow> NFACAModel \<Rightarrow> error + NFACAModel" where
  "steps 0 m = Inr m"
| "steps (Suc n) m = (case NFACAModel_step m of Inl e \<Rightarrow> Inl e | Inr m' \<Rightarrow> steps n m')"

text \<open>Construction followed by \<open>n\<close> steps.\<close>

definition run ::
  "real \<Rightarrow> real \<Rightarrow> real \<Rightarrow> int \<Rightarrow> (nat \<Rightarrow> real) \<Rightarrow> nat \<Rightarrow> error + NFACAModel" where
  "run initial_alive bp cb dc draws n =
     (case NFACAModel_init initial_alive bp cb dc draws of
        Inl e \<Rightarrow> Inl e
      | Inr m \<Rightarrow> steps n m)"

section \<open>Notions of the specification\<close>

text \<open>
  The contract \<open>computeNext\<close> of the specification: the next state as a function of the
  cell's state, the states of its neighbours, the three parameters and the draw.
\<close>

definition computeNext ::
  "string \<Rightarrow> string list \<Rightarrow> real \<Rightarrow> real \<Rightarrow> int \<Rightarrow> real \<Rightarrow> error + string" where
  "computeNext st neighbor_states bp cb dc u =
     (case map_of (rewire cb dc)
             (st, input_symbol (length (filter (\<lambda>s. s = ''Alive'') neighbor_states))) of
        None \<Rightarrow> Inl KeyError
      | Some candidates \<Rightarrow>
          (case resolve bp candidates u of
             Inl e \<Rightarrow> Inl e
           | Inr chosen \<Rightarrow> Inr (override dc chosen)))"

text \<open>The four states of the automaton and the states a run visits.\<close>

definition all_states :: "string list" where
  "all_states = [''Alive'', ''Dying'', ''Stable'', ''Chaotic'']"

definition well_formed :: "NFACAModel \<Rightarrow> bool" where
  "well_formed m = list_all (\<lambda>a. state a \<in> set all_states) (agents m)"

text \<open>
  Frequencies over a sample: the \<open>N\<close> equally likely draws \<open>0, 1/N, ..., (N-1)/N\<close> of the
  unit interval, and the number of them on which \<open>resolve\<close> returns the state \<open>s\<close>.
\<close>

definition sample_draws :: "nat \<Rightarrow> real list" where
  "sample_draws N = map (\<lambda>k. real k / real N) [0..<N]"

definition selection_count :: "real \<Rightarrow> string list \<Rightarrow> nat \<Rightarrow> string \<Rightarrow> nat" where
  "selection_count bp possible_states N s =
     length (filter (\<lambda>u. resolve bp possible_states u = Inr s) (sample_draws N))"

text \<open>The number of sample draws on which the candidates of a key, under the bias
  \<open>cb\<close>, resolve to Chaotic.\<close>

definition chaotic_count :: "real \<Rightarrow> real \<Rightarrow> int \<Rightarrow> string \<times> string \<Rightarrow> nat \<Rightarrow> nat" where
  "chaotic_count bp cb dc key N =
     (case map_of (rewire cb dc) key of
        None \<Rightarrow> 0
      | Some possible_states \<Rightarrow> selection_count bp possible_states N ''Chaotic'')"

text \<open>
  The view a cell's step has of the model: the states of the agents on the neighbouring
  coordinates of agent \<open>i\<close>.
\<close>

definition neighbor_states :: "NFACAModel \<Rightarrow> nat \<Rightarrow> string list" where
  "neighbor_states m i = map state (get_neighbors m (pos (agents m ! i)))"

text \<open>
  The generator position at which agent \<open>i\<close> steps: the position at the start of the
  phase plus the draws of the agents before it, each of which draws once unless its
  candidate list is a singleton.
\<close>

definition draws_needed :: "string \<Rightarrow> string list \<Rightarrow> real \<Rightarrow> int \<Rightarrow> nat" where
  "draws_needed st nbrs cb dc =
     (case map_of (rewire cb dc) (st, input_symbol (length (filter (\<lambda>s. s = ''Alive'') nbrs))) of
        None \<Rightarrow> 0
      | Some candidates \<Rightarrow> draws_used candidates)"

definition draw_index :: "NFACAModel \<Rightarrow> nat \<Rightarrow> nat" where
  "draw_index m i =
     random_pos m +
     sum_list (map (\<lambda>j. draws_needed (state (agents m ! j)) (neighbor_states m j)
                            (chaos_bias m) (disable_chaotic m)) [0..<i])"

text \<open>The value \<open>computeNext\<close> returns for agent \<open>i\<close> on the states before the step.\<close>

definition committed :: "NFACAModel \<Rightarrow> nat \<Rightarrow> error + string" where
  "committed m i =
     computeNext (state (agents m ! i)) (neighbor_states m i) (branch_prob m) (chaos_bias m)
       (disable_chaotic m) (random_draws m (draw_index m i))"

text \<open>The model after the first \<open>k\<close> agents of the schedule have staged their next
  state.\<close>

definition staged_agent :: "NFACAModel \<Rightarrow> nat \<Rightarrow> NFACellAgent" where
  "staged_agent m j =
     (case committed m j of
        Inl e \<Rightarrow> agents m ! j
      | Inr s \<Rightarrow> (agents m ! j)\<lparr>next_state := s\<rparr>)"

definition stage :: "NFACAModel \<Rightarrow> nat \<Rightarrow> NFACAModel" where
  "stage m k =
     m\<lparr>agents := map (\<lambda>j. if j < k then staged_agent m j else agents m ! j)
                   [0..<length (agents m)],
       random_pos := draw_index m k\<rparr>"

text \<open>
  What a step can read of a model: everything but the staged \<open>next_state\<close> slots and the
  collected series.
\<close>

definition visible ::
  "NFACAModel \<Rightarrow> nat \<times> nat \<times> real \<times> real \<times> int \<times> (int \<times> int) list \<times> string list \<times> (nat \<Rightarrow> real) \<times> nat" where
  "visible m =
     (width m, height m, branch_prob m, chaos_bias m, disable_chaotic m,
      map pos (agents m), map state (agents m), random_draws m, random_pos m)"

text \<open>
  The invariant of the grid in the specification: the positions of the agents, in
  schedule order, are the coordinates of the grid, each once.
\<close>

definition one_per_cell :: "NFACAModel \<Rightarrow> bool" where
  "one_per_cell m =
     (map pos (agents m) =
        concat (map (\<lambda>x. map (\<lambda>y. (int x, int y)) [0..<height m]) [0..<width m]))"

text \<open>
  A generator that returns the same value at every draw, and the 3 by 3 grid of the
  specification's scenario: every cell Alive, \<open>branch_prob\<close> 1 and \<open>chaos_bias\<close> 0.5.
\<close>

definition constant_draws :: "real \<Rightarrow> nat \<Rightarrow> real" where
  "constant_draws c k = c"

definition example_grid :: "int \<Rightarrow> NFACAModel" where
  "example_grid dc =
     \<lparr>width = 3, height = 3, branch_prob = 1, chaos_bias = 1 / 2, disable_chaotic = dc,
      agents = map (\<lambda>(x, y). \<lparr>pos = (int x, int y), state = ''Alive'', next_state = ''Alive''\<rparr>)
                 (concat (map (\<lambda>x. map (\<lambda>y. (x, y)) [0..<3]) [0..<3])),
      model_vars = [], random_draws = constant_draws (1 / 2), random_pos = 0\<rparr>"

section \<open>Properties of the rewiring\<close>

lemma insort_key_front: "P x \<Longrightarrow> insort_key (\<lambda>x. \<not> P x) x ys = x # ys"
  by (cases ys) simp_all

lemma insort_key_between:
  "\<not> P x \<Longrightarrow> \<forall>y\<in>set ys. P y \<Longrightarrow> \<forall>z\<in>set zs. \<not> P z \<Longrightarrow>
   insort_key (\<lambda>x. \<not> P x) x (ys @ zs) = ys @ x # zs"
proof (induction ys)
  case Nil
  then show ?case by (cases zs) simp_all
next
  case (Cons y ys)
  then show ?case by simp
qed

lemma sort_key_bool_partition:
  "sort_key (\<lambda>x. \<not> P x) xs = filter P xs @ filter (\<lambda>x. \<not> P x) xs"
proof (induction xs)
  case Nil
  show ?case by simp
next
  case (Cons x xs)
  show ?case
  proof (cases "P x")
    case True
    then show ?thesis by (simp add: Cons.IH insort_key_front)
  next
    case False
    have "insort_key (\<lambda>x. \<not> P x) x (filter P xs @ filter (\<lambda>x. \<not> P x) xs)
        = filter P xs @ x # filter (\<lambda>x. \<not> P x) xs"
      by (rule insort_key_between) (use False in simp_all)
    with False show ?thesis by (simp add: Cons.IH)
  qed
qed

lemma reorder_high: "cb > 7 / 10 \<Longrightarrow> reorder cb xs = stable_partition (\<lambda>s. s = ''Chaotic'') xs"
  using sort_key_bool_partition [of "\<lambda>s. s = ''Chaotic''" xs]
  by (simp add: reorder_def stable_partition_def)

lemma reorder_low: "cb < 3 / 10 \<Longrightarrow> reorder cb xs = stable_partition (\<lambda>s. s \<noteq> ''Chaotic'') xs"
  using sort_key_bool_partition [of "\<lambda>s. s \<noteq> ''Chaotic''" xs]
  by (simp add: reorder_def stable_partition_def)

lemma reorder_mid: "3 / 10 \<le> cb \<Longrightarrow> cb \<le> 7 / 10 \<Longrightarrow> reorder cb xs = xs"
  by (simp add: reorder_def)

lemma set_reorder: "set (reorder cb xs) = set xs"
  by (simp add: reorder_def)

lemma length_reorder: "length (reorder cb xs) = length xs"
  by (simp add: reorder_def)

section \<open>Candidates of the rewired table\<close>

lemma map_of_rewire:
  "map_of (rewire cb dc) key =
     map_option (\<lambda>states. prune dc (reorder cb states)) (map_of BASE_TRANSITIONS key)"
  by (simp add: rewire_def map_of_map)

lemma base_entries:
  "list_all (\<lambda>kv. length (snd kv) = 2 \<and> set (snd kv) \<subseteq> set all_states
      \<and> length (filter (\<lambda>s. s = ''Chaotic'') (snd kv)) \<le> 1) BASE_TRANSITIONS"
  by (simp add: BASE_TRANSITIONS_def all_states_def)

lemma base_keys:
  "map fst BASE_TRANSITIONS =
     concat (map (\<lambda>st. map (\<lambda>sym. (st, sym)) [''L'', ''M'', ''H'']) all_states)"
  by (simp add: BASE_TRANSITIONS_def all_states_def)

lemma base_lookup:
  assumes "st \<in> set all_states"
  shows "\<exists>xs. map_of BASE_TRANSITIONS (st, input_symbol n) = Some xs"
proof -
  have "(st, input_symbol n) \<in> set (map fst BASE_TRANSITIONS)"
    using assms unfolding base_keys by (auto simp: input_symbol_def)
  then have "(st, input_symbol n) \<in> dom (map_of BASE_TRANSITIONS)"
    by (simp add: dom_map_of_conv_image_fst)
  then show ?thesis by blast
qed

lemma base_entry:
  assumes "map_of BASE_TRANSITIONS key = Some xs"
  shows "length xs = 2" "set xs \<subseteq> set all_states"
    "length (filter (\<lambda>s. s = ''Chaotic'') xs) \<le> 1"
proof -
  have "(key, xs) \<in> set BASE_TRANSITIONS" using assms by (rule map_of_SomeD)
  then have "length (snd (key, xs)) = 2 \<and> set (snd (key, xs)) \<subseteq> set all_states
      \<and> length (filter (\<lambda>s. s = ''Chaotic'') (snd (key, xs))) \<le> 1"
    using base_entries unfolding list_all_iff by blast
  then show "length xs = 2" "set xs \<subseteq> set all_states"
    "length (filter (\<lambda>s. s = ''Chaotic'') xs) \<le> 1" by simp_all
qed

lemma prune_nonempty: "xs \<noteq> [] \<Longrightarrow> prune dc xs \<noteq> []"
  by (simp add: prune_def Let_def)

lemma prune_fallback:
  "dc \<noteq> 0 \<Longrightarrow> filter (\<lambda>s. s \<noteq> ''Chaotic'') xs = [] \<Longrightarrow> prune dc xs = [''Stable'']"
  by (simp add: prune_def)

lemma set_prune: "set (prune dc xs) \<subseteq> insert ''Stable'' (set xs)"
  by (auto simp: prune_def Let_def)

lemma prune_no_chaotic: "dc \<noteq> 0 \<Longrightarrow> ''Chaotic'' \<notin> set (prune dc xs)"
  by (auto simp: prune_def Let_def)

lemma length_filter_split:
  "length (filter (\<lambda>s. s \<noteq> c) xs) + length (filter (\<lambda>s. s = c) xs) = length xs"
  by (induction xs) auto

lemma length_prune:
  assumes "length xs = 2" "length (filter (\<lambda>s. s = ''Chaotic'') xs) \<le> 1"
  shows "length (prune dc xs) = 1 \<or> length (prune dc xs) = 2"
proof -
  have "length (filter (\<lambda>s. s \<noteq> ''Chaotic'') xs) + length (filter (\<lambda>s. s = ''Chaotic'') xs) = 2"
    using length_filter_split [of "''Chaotic''" xs] assms(1) by simp
  with assms(2) have "length (filter (\<lambda>s. s \<noteq> ''Chaotic'') xs) = 1
      \<or> length (filter (\<lambda>s. s \<noteq> ''Chaotic'') xs) = 2" by arith
  then show ?thesis using assms(1) by (auto simp: prune_def Let_def)
qed

lemma candidates_facts:
  assumes "map_of (rewire cb dc) key = Some ps"
  shows "length ps = 1 \<or> length ps = 2" "set ps \<subseteq> set all_states"
    "dc \<noteq> 0 \<Longrightarrow> ''Chaotic'' \<notin> set ps"
proof -
  obtain xs where xs: "map_of BASE_TRANSITIONS key = Some xs" and ps: "ps = prune dc (reorder cb xs)"
    using assms by (auto simp: map_of_rewire)
  have len: "length (reorder cb xs) = 2"
    using base_entry(1) [OF xs] by (simp add: length_reorder)
  have "filter (\<lambda>s. s = ''Chaotic'') (reorder cb xs) = filter (\<lambda>s. s = ''Chaotic'') xs"
    by (simp add: reorder_def sort_key_stable[of "\<lambda>s. s = ''Chaotic''" True, simplified]
         sort_key_stable[of "\<lambda>s. s \<noteq> ''Chaotic''" False, simplified])
  then have "length (filter (\<lambda>s. s = ''Chaotic'') (reorder cb xs)) \<le> 1"
    using base_entry(3) [OF xs] by simp
  with len show "length ps = 1 \<or> length ps = 2" unfolding ps by (rule length_prune)
  have "set ps \<subseteq> insert ''Stable'' (set xs)"
    unfolding ps using set_prune [of dc "reorder cb xs"] by (simp add: set_reorder)
  then show "set ps \<subseteq> set all_states"
    using base_entry(2) [OF xs] by (auto simp: all_states_def)
  show "''Chaotic'' \<notin> set ps" if "dc \<noteq> 0"
    unfolding ps using that by (rule prune_no_chaotic)
qed

lemma candidates_exist:
  assumes "st \<in> set all_states"
  shows "\<exists>ps. map_of (rewire cb dc) (st, input_symbol n) = Some ps"
  using base_lookup [OF assms, of n] by (auto simp: map_of_rewire)

section \<open>Resolution of the nondeterminism\<close>

lemma bisect_right_two: "bisect_right [a, b] x 0 (Suc 0) = (if x < a then 0 else 1)"
  by (subst bisect_right.simps) (simp add: Let_def)

lemma choices_index_two:
  "choices_index (Suc (Suc 0)) [bp, 1 - bp] u = Inr (if u < bp then 0 else 1)"
  by (simp add: choices_index_def accumulate_def bisect_right_two)

lemma resolve_one: "resolve bp [c] u = Inr c"
  by (simp add: resolve_def)

lemma resolve_two: "resolve bp [c0, c1] u = Inr (if u < bp then c0 else c1)"
  by (simp add: resolve_def choices_def choices_index_two)

lemma resolve_total:
  assumes "length ps = 1 \<or> length ps = 2"
  shows "\<exists>s\<in>set ps. resolve bp ps u = Inr s"
proof -
  from assms consider c where "ps = [c]" | c0 c1 where "ps = [c0, c1]"
    by (auto simp: length_Suc_conv numeral_2_eq_2)
  then show ?thesis
    by cases (simp_all add: resolve_one resolve_two)
qed

lemma length_filter_less_upt: "length (filter (\<lambda>k. k < j) [0..<N]) = min j N"
  by (induction N) auto

lemma count_draws_below:
  assumes "0 < N" "m \<le> N"
  shows "length (filter (\<lambda>u. u < real m / real N) (sample_draws N)) = m"
proof -
  have "(real k / real N < real m / real N) = (k < m)" for k
    using assms(1) by (simp add: divide_less_cancel)
  then have "length (filter (\<lambda>u. u < real m / real N) (sample_draws N))
      = length (filter (\<lambda>k. k < m) [0..<N])"
    by (simp add: sample_draws_def filter_map o_def)
  then show ?thesis using assms(2) by (simp add: length_filter_less_upt)
qed

lemma count_draws_not_below:
  assumes "0 < N" "m \<le> N"
  shows "length (filter (\<lambda>u. \<not> u < real m / real N) (sample_draws N)) = N - m"
proof -
  have "length (filter (\<lambda>u. u < real m / real N) (sample_draws N))
      + length (filter (\<lambda>u. \<not> u < real m / real N) (sample_draws N)) = length (sample_draws N)"
    by (rule sum_length_filter_compl)
  then show ?thesis using count_draws_below [OF assms] by (simp add: sample_draws_def)
qed

lemma selection_count_two:
  assumes "0 < N" "m \<le> N" "c0 \<noteq> c1"
  shows "selection_count (real m / real N) [c0, c1] N c0 = m"
    and "selection_count (real m / real N) [c0, c1] N c1 = N - m"
proof -
  have a: "(resolve (real m / real N) [c0, c1] u = Inr c0) = (u < real m / real N)" for u
    using assms(3) by (simp add: resolve_two)
  have b: "(resolve (real m / real N) [c0, c1] u = Inr c1) = (\<not> u < real m / real N)" for u
    using assms(3) by (auto simp add: resolve_two)
  show "selection_count (real m / real N) [c0, c1] N c0 = m"
    unfolding selection_count_def a by (rule count_draws_below [OF assms(1,2)])
  show "selection_count (real m / real N) [c0, c1] N c1 = N - m"
    unfolding selection_count_def b by (rule count_draws_not_below [OF assms(1,2)])
qed

text \<open>
  Claim C3. A single candidate is the next state. Of two candidates the first is chosen
  when the draw is below \<open>branch_prob\<close> and the second otherwise; with \<open>branch_prob\<close> 1
  every draw of the unit interval chooses the first, with 0 the second. Over \<open>N\<close>
  equally likely draws and \<open>branch_prob = m / N\<close> the first candidate is chosen on
  exactly \<open>m\<close> draws and the second on the other \<open>N - m\<close>: with probability
  \<open>branch_prob\<close> and \<open>1 - branch_prob\<close>.
\<close>

theorem resolve_by_branch_prob:
  "resolve bp [c] u = Inr c
   \<and> resolve bp [c0, c1] u = Inr (if u < bp then c0 else c1)
   \<and> (0 \<le> u \<and> u < 1 \<longrightarrow> resolve 1 [c0, c1] u = Inr c0 \<and> resolve 0 [c0, c1] u = Inr c1)
   \<and> (0 < N \<and> m \<le> N \<and> c0 \<noteq> c1 \<longrightarrow>
        selection_count (real m / real N) [c0, c1] N c0 = m
        \<and> selection_count (real m / real N) [c0, c1] N c1 = N - m)"
  using selection_count_two [of N m c0 c1]
  by (simp add: resolve_one resolve_two)

theorem resolve_by_branch_prob_witness:
  "resolve (1 / 4) [''Chaotic''] (1 / 2) = Inr ''Chaotic''
   \<and> resolve (1 / 4) [''Alive'', ''Stable''] (1 / 2) = Inr ''Stable''
   \<and> resolve 1 [''Alive'', ''Stable''] (1 / 2) = Inr ''Alive''
   \<and> resolve 0 [''Alive'', ''Stable''] (1 / 2) = Inr ''Stable''
   \<and> selection_count (1 / 4) [''Alive'', ''Stable''] 4 ''Alive'' = 1
   \<and> selection_count (1 / 4) [''Alive'', ''Stable''] 4 ''Stable'' = 3"
  using resolve_by_branch_prob [of "1 / 4" "''Chaotic''" "1 / 2" "''Alive''" "''Stable''" 4 1]
  by simp

section \<open>The claims on the table\<close>

lemma filter_stable_partition:
  "filter P (stable_partition Q xs) = stable_partition Q (filter P xs)"
  by (simp add: stable_partition_def conj_commute)

text \<open>
  Claim C4. Before pruning, the candidates of an entry are the base list stably
  partitioned with the Chaotic candidates first when the bias is above 0.7, stably
  partitioned with the Chaotic candidates last when it is below 0.3, and the base list
  itself otherwise, in particular at exactly 0.7 and at exactly 0.3. In every case the
  Chaotic candidates keep their base order among themselves, and so do the others. With
  pruning off this list is the entry of the rewired table; in general the entry is its
  pruning.
\<close>

theorem reorder_by_bias:
  "reorder cb xs =
     (if 7 / 10 < cb then stable_partition (\<lambda>s. s = ''Chaotic'') xs
      else if cb < 3 / 10 then stable_partition (\<lambda>s. s \<noteq> ''Chaotic'') xs
      else xs)
   \<and> reorder (7 / 10) xs = xs \<and> reorder (3 / 10) xs = xs
   \<and> filter (\<lambda>s. s = ''Chaotic'') (reorder cb xs) = filter (\<lambda>s. s = ''Chaotic'') xs
   \<and> filter (\<lambda>s. s \<noteq> ''Chaotic'') (reorder cb xs) = filter (\<lambda>s. s \<noteq> ''Chaotic'') xs
   \<and> map_of (rewire cb 0) key = map_option (reorder cb) (map_of BASE_TRANSITIONS key)
   \<and> map_of (rewire cb dc) key =
       map_option (\<lambda>states. prune dc (reorder cb states)) (map_of BASE_TRANSITIONS key)"
proof -
  have a: "reorder cb xs =
     (if 7 / 10 < cb then stable_partition (\<lambda>s. s = ''Chaotic'') xs
      else if cb < 3 / 10 then stable_partition (\<lambda>s. s \<noteq> ''Chaotic'') xs
      else xs)"
    using reorder_high [of cb xs] reorder_low [of cb xs] reorder_mid [of cb xs] by auto
  have b: "reorder (7 / 10) xs = xs" "reorder (3 / 10) xs = xs"
    by (simp_all add: reorder_mid)
  have c: "filter (\<lambda>s. s = ''Chaotic'') (reorder cb xs) = filter (\<lambda>s. s = ''Chaotic'') xs"
    unfolding a by (simp add: stable_partition_def)
  have d: "filter (\<lambda>s. s \<noteq> ''Chaotic'') (reorder cb xs) = filter (\<lambda>s. s \<noteq> ''Chaotic'') xs"
    unfolding a by (simp add: stable_partition_def)
  have e: "map_of (rewire cb 0) key = map_option (reorder cb) (map_of BASE_TRANSITIONS key)"
    by (simp add: map_of_rewire prune_def)
  from a b c d e map_of_rewire [of cb dc key] show ?thesis by blast
qed

lemma rewire_keys: "map fst (rewire cb dc) = map fst BASE_TRANSITIONS"
  by (simp add: rewire_def o_def split_def)

lemma base_keys_distinct: "distinct (map fst BASE_TRANSITIONS)"
  by (simp add: BASE_TRANSITIONS_def)

lemma rewire_entry:
  assumes "kv \<in> set (rewire cb dc)"
  shows "map_of (rewire cb dc) (fst kv) = Some (snd kv)"
proof -
  have "distinct (map fst (rewire cb dc))"
    by (simp only: rewire_keys base_keys_distinct)
  then show ?thesis using assms by (cases kv) simp
qed

text \<open>
  Claim C5. For every bias and every value of \<open>disable_chaotic\<close> the rewired table has
  the keys of the base table and no empty candidate list, so every lookup of one of the
  four states with an input symbol finds a non-empty list. A list that pruning empties
  is replaced by \<open>[Stable]\<close>, and pruning never returns an empty list.
\<close>

theorem candidates_nonempty:
  "map fst (rewire cb dc) = map fst BASE_TRANSITIONS
   \<and> (\<forall>kv\<in>set (rewire cb dc). snd kv \<noteq> [])
   \<and> (st \<in> set all_states \<longrightarrow>
        (\<exists>ps. map_of (rewire cb dc) (st, input_symbol n) = Some ps \<and> ps \<noteq> []))
   \<and> (dc \<noteq> 0 \<and> filter (\<lambda>s. s \<noteq> ''Chaotic'') xs = [] \<longrightarrow> prune dc xs = [''Stable''])
   \<and> (xs \<noteq> [] \<longrightarrow> prune dc xs \<noteq> [])"
proof -
  have a: "snd kv \<noteq> []" if "kv \<in> set (rewire cb dc)" for kv
    using candidates_facts(1) [OF rewire_entry [OF that]] by auto
  have b: "\<exists>ps. map_of (rewire cb dc) (st, input_symbol n) = Some ps \<and> ps \<noteq> []"
    if st: "st \<in> set all_states"
  proof -
    obtain ps where ps: "map_of (rewire cb dc) (st, input_symbol n) = Some ps"
      using candidates_exist [OF st] by blast
    then have "ps \<noteq> []" using candidates_facts(1) [OF ps] by auto
    with ps show ?thesis by blast
  qed
  show ?thesis
    using a b rewire_keys [of cb dc] prune_fallback [of dc xs] prune_nonempty [of xs dc]
    by blast
qed

theorem candidates_nonempty_witness:
  "map fst (rewire (1 / 2) 1) = map fst BASE_TRANSITIONS
   \<and> list_all (\<lambda>kv. snd kv \<noteq> []) (rewire (1 / 2) 1)
   \<and> (\<exists>ps. map_of (rewire (1 / 2) 1) (''Alive'', input_symbol 8) = Some ps \<and> ps \<noteq> [])
   \<and> prune 1 [''Chaotic'', ''Chaotic''] = [''Stable'']
   \<and> prune 1 [''Chaotic'', ''Dying''] \<noteq> []"
  using candidates_nonempty [of "1 / 2" 1 "''Alive''" 8 "[''Chaotic'', ''Chaotic'']"]
    candidates_nonempty [of "1 / 2" 1 "''Alive''" 8 "[''Chaotic'', ''Dying'']"]
  by (simp add: list_all_iff all_states_def)

section \<open>The step of one cell\<close>

lemma agent_step_eq:
  "NFACellAgent_step m i =
     (case computeNext (state (agents m ! i)) (neighbor_states m i) (branch_prob m)
             (chaos_bias m) (disable_chaotic m) (random_draws m (random_pos m)) of
        Inl e \<Rightarrow> Inl e
      | Inr s \<Rightarrow>
          Inr (m\<lparr>agents := (agents m)[i := (agents m ! i)\<lparr>next_state := s\<rparr>],
                 random_pos := random_pos m +
                   draws_needed (state (agents m ! i)) (neighbor_states m i)
                     (chaos_bias m) (disable_chaotic m)\<rparr>))"
  by (simp add: NFACellAgent_step_def computeNext_def neighbor_states_def draws_needed_def
      get_transitions_def Let_def filter_map o_def split: option.split sum.split)

lemma override_range:
  "s \<in> set all_states \<Longrightarrow> override dc s \<in> set all_states"
  by (simp add: override_def all_states_def)

lemma computeNext_ok:
  assumes "st \<in> set all_states"
  shows "\<exists>s. computeNext st nbrs bp cb dc u = Inr s \<and> s \<in> set all_states
            \<and> (dc \<noteq> 0 \<longrightarrow> s \<noteq> ''Chaotic'')"
proof -
  let ?key = "(st, input_symbol (length (filter (\<lambda>s. s = ''Alive'') nbrs)))"
  obtain ps where ps: "map_of (rewire cb dc) ?key = Some ps"
    using candidates_exist [OF assms] by blast
  obtain c where c: "c \<in> set ps" "resolve bp ps u = Inr c"
    using resolve_total [OF candidates_facts(1) [OF ps]] by blast
  have next_is: "computeNext st nbrs bp cb dc u = Inr (override dc c)"
    by (simp add: computeNext_def ps c(2))
  have c_state: "c \<in> set all_states"
    using c(1) candidates_facts(2) [OF ps] by blast
  have "override dc c \<noteq> ''Chaotic''" if "dc \<noteq> 0"
    using candidates_facts(3) [OF ps that] c(1) by (auto simp: override_def)
  with next_is override_range [OF c_state] show ?thesis by simp
qed

lemma filter_pos_view:
  "map pos xs = map pos ys \<Longrightarrow> map state xs = map state ys \<Longrightarrow>
   map state (filter (\<lambda>a. pos a = c) xs) = map state (filter (\<lambda>a. pos a = c) ys)"
proof (induction xs arbitrary: ys)
  case Nil
  then show ?case by simp
next
  case (Cons x xs)
  then obtain y ys' where ys: "ys = y # ys'" by (cases ys) auto
  with Cons.prems have "pos x = pos y" "state x = state y"
    "map pos xs = map pos ys'" "map state xs = map state ys'" by simp_all
  with Cons.IH [of ys'] show ?case by (simp add: ys)
qed

lemma neighbors_view:
  assumes "width m2 = width m" "height m2 = height m"
    "map pos (agents m2) = map pos (agents m)" "map state (agents m2) = map state (agents m)"
  shows "map state (get_neighbors m2 p) = map state (get_neighbors m p)"
proof -
  have nb: "get_neighborhood m2 p = get_neighborhood m p"
    using assms(1,2) by (simp add: get_neighborhood_def torus_adj_def)
  have "map state (concat (map (\<lambda>c. filter (\<lambda>a. pos a = c) (agents m2)) cs))
      = map state (concat (map (\<lambda>c. filter (\<lambda>a. pos a = c) (agents m)) cs))" for cs
    by (induction cs) (simp_all add: filter_pos_view [OF assms(3,4)])
  then show ?thesis by (simp add: get_neighbors_def nb)
qed

lemma agent_step_total:
  assumes "well_formed m" "i < length (agents m)"
  shows "\<exists>m'. NFACellAgent_step m i = Inr m'"
proof -
  have "state (agents m ! i) \<in> set all_states"
    using assms by (simp add: well_formed_def list_all_length)
  from computeNext_ok [OF this] obtain s where
    "computeNext (state (agents m ! i)) (neighbor_states m i) (branch_prob m)
       (chaos_bias m) (disable_chaotic m) (random_draws m (random_pos m)) = Inr s"
    by blast
  then show ?thesis unfolding agent_step_eq by simp
qed

lemma staged_never_chaotic:
  assumes "disable_chaotic m = 1" "i < length (agents m)" "NFACellAgent_step m i = Inr m'"
  shows "next_state (agents m' ! i) \<noteq> ''Chaotic''"
proof -
  let ?next = "computeNext (state (agents m ! i)) (neighbor_states m i) (branch_prob m)
     (chaos_bias m) (disable_chaotic m) (random_draws m (random_pos m))"
  obtain s where s: "?next = Inr s"
      and m': "m' = m\<lparr>agents := (agents m)[i := (agents m ! i)\<lparr>next_state := s\<rparr>],
                 random_pos := random_pos m +
                   draws_needed (state (agents m ! i)) (neighbor_states m i)
                     (chaos_bias m) (disable_chaotic m)\<rparr>"
    using assms(3) unfolding agent_step_eq by (cases ?next) auto
  have "s \<noteq> ''Chaotic''"
    using s assms(1)
    by (auto simp: computeNext_def override_def split: option.splits sum.splits if_splits)
  then show ?thesis using assms(2) by (simp add: m')
qed

section \<open>The compute phase\<close>

lemma staged_agent_view:
  "pos (staged_agent m j) = pos (agents m ! j)" "state (staged_agent m j) = state (agents m ! j)"
  by (simp_all add: staged_agent_def split: sum.split)

lemma stage_fields:
  "width (stage m k) = width m" "height (stage m k) = height m"
  "branch_prob (stage m k) = branch_prob m" "chaos_bias (stage m k) = chaos_bias m"
  "disable_chaotic (stage m k) = disable_chaotic m" "model_vars (stage m k) = model_vars m"
  "random_draws (stage m k) = random_draws m" "random_pos (stage m k) = draw_index m k"
  "length (agents (stage m k)) = length (agents m)"
  by (simp_all add: stage_def)

lemma stage_nth:
  "j < length (agents m) \<Longrightarrow>
   agents (stage m k) ! j = (if j < k then staged_agent m j else agents m ! j)"
  by (simp add: stage_def)

lemma stage_view:
  "map pos (agents (stage m k)) = map pos (agents m)"
  "map state (agents (stage m k)) = map state (agents m)"
  by (rule nth_equalityI; simp add: stage_fields stage_nth staged_agent_view)+

lemma stage_zero: "stage m 0 = m"
  by (simp add: stage_def draw_index_def map_nth)

lemma neighbor_states_stage:
  assumes "k < length (agents m)"
  shows "neighbor_states (stage m k) k = neighbor_states m k"
proof -
  have "pos (agents (stage m k) ! k) = pos (agents m ! k)"
    using assms by (simp add: stage_nth)
  then show ?thesis
    unfolding neighbor_states_def
    by (simp add: neighbors_view [OF stage_fields(1,2) stage_view])
qed

lemma draw_index_Suc:
  "draw_index m (Suc k) =
     draw_index m k + draws_needed (state (agents m ! k)) (neighbor_states m k)
                        (chaos_bias m) (disable_chaotic m)"
  by (simp add: draw_index_def)

lemma committed_ok:
  assumes "well_formed m" "i < length (agents m)"
  shows "\<exists>s. committed m i = Inr s \<and> s \<in> set all_states
            \<and> (disable_chaotic m \<noteq> 0 \<longrightarrow> s \<noteq> ''Chaotic'')"
proof -
  have "state (agents m ! i) \<in> set all_states"
    using assms by (simp add: well_formed_def list_all_length)
  then show ?thesis unfolding committed_def by (rule computeNext_ok)
qed

lemma agent_step_stage:
  assumes "well_formed m" "k < length (agents m)"
  shows "NFACellAgent_step (stage m k) k = Inr (stage m (Suc k))"
proof -
  obtain s where s: "committed m k = Inr s"
    using committed_ok [OF assms] by blast
  have at_k: "agents (stage m k) ! k = agents m ! k"
    using assms(2) by (simp add: stage_nth)
  have next_k: "computeNext (state (agents (stage m k) ! k)) (neighbor_states (stage m k) k)
      (branch_prob (stage m k)) (chaos_bias (stage m k)) (disable_chaotic (stage m k))
      (random_draws (stage m k) (random_pos (stage m k))) = Inr s"
    using s by (simp add: at_k neighbor_states_stage [OF assms(2)] stage_fields committed_def)
  have upd: "(agents (stage m k))[k := (agents m ! k)\<lparr>next_state := s\<rparr>] = agents (stage m (Suc k))"
  proof (rule nth_equalityI)
    show "length ((agents (stage m k))[k := (agents m ! k)\<lparr>next_state := s\<rparr>])
        = length (agents (stage m (Suc k)))"
      by (simp add: stage_fields)
  next
    fix j assume "j < length ((agents (stage m k))[k := (agents m ! k)\<lparr>next_state := s\<rparr>])"
    then have j: "j < length (agents m)" by (simp add: stage_fields)
    show "(agents (stage m k))[k := (agents m ! k)\<lparr>next_state := s\<rparr>] ! j
        = agents (stage m (Suc k)) ! j"
    proof (cases "j = k")
      case True
      then show ?thesis
        using j by (simp add: stage_fields stage_nth staged_agent_def s)
    next
      case False
      then show ?thesis
        using j by (auto simp add: stage_fields stage_nth less_Suc_eq)
    qed
  qed
  have "NFACellAgent_step (stage m k) k =
      Inr ((stage m k)\<lparr>agents := (agents (stage m k))[k := (agents m ! k)\<lparr>next_state := s\<rparr>],
             random_pos := draw_index m (Suc k)\<rparr>)"
    unfolding agent_step_eq next_k
    by (simp add: at_k neighbor_states_stage [OF assms(2)] stage_fields draw_index_Suc)
  also have "(stage m k)\<lparr>agents := (agents (stage m k))[k := (agents m ! k)\<lparr>next_state := s\<rparr>],
             random_pos := draw_index m (Suc k)\<rparr> = stage m (Suc k)"
    unfolding upd by (simp add: stage_def)
  finally show ?thesis .
qed

lemma step_all_append:
  "step_all (xs @ ys) m = (case step_all xs m of Inl e \<Rightarrow> Inl e | Inr m' \<Rightarrow> step_all ys m')"
  by (induction xs arbitrary: m) (auto split: sum.split)

lemma phase_one:
  assumes "well_formed m" "k \<le> length (agents m)"
  shows "step_all [0..<k] m = Inr (stage m k)"
  using assms(2)
proof (induction k)
  case 0
  show ?case by (simp add: stage_zero)
next
  case (Suc k)
  then have "step_all [0..<k] m = Inr (stage m k)" "k < length (agents m)" by simp_all
  then show ?case
    by (simp add: step_all_append agent_step_stage [OF assms(1)])
qed

lemma schedule_step_eq:
  assumes "well_formed m"
  shows "schedule_step m = Inr (advance_all (stage m (length (agents m))))"
  by (simp add: schedule_step_def phase_one [OF assms])

lemma committed_state:
  assumes "well_formed m" "i < length (agents m)"
  shows "committed m i = Inr (state (agents (advance_all (stage m (length (agents m)))) ! i))"
proof -
  obtain s where s: "committed m i = Inr s"
    using committed_ok [OF assms] by blast
  then show ?thesis
    using assms(2) by (simp add: advance_all_def advance_def stage_fields stage_nth staged_agent_def)
qed

section \<open>What a step reads\<close>

lemma collect_eq: "collect m = m\<lparr>model_vars := model_vars m @ [reporters m]\<rparr>"
  by (simp add: collect_def)

lemma visible_D:
  assumes "visible m2 = visible m"
  shows "width m2 = width m" "height m2 = height m" "branch_prob m2 = branch_prob m"
    "chaos_bias m2 = chaos_bias m" "disable_chaotic m2 = disable_chaotic m"
    "map pos (agents m2) = map pos (agents m)" "map state (agents m2) = map state (agents m)"
    "random_draws m2 = random_draws m" "random_pos m2 = random_pos m"
    "length (agents m2) = length (agents m)"
proof -
  show a: "map pos (agents m2) = map pos (agents m)" using assms by (simp add: visible_def)
  show "length (agents m2) = length (agents m)" using a by (rule map_eq_imp_length_eq)
qed (use assms in \<open>simp_all add: visible_def\<close>)

lemma visible_nth:
  assumes "visible m2 = visible m" "i < length (agents m)"
  shows "state (agents m2 ! i) = state (agents m ! i)" "pos (agents m2 ! i) = pos (agents m ! i)"
proof -
  have "map state (agents m2) ! i = map state (agents m) ! i"
    "map pos (agents m2) ! i = map pos (agents m) ! i"
    by (simp_all add: visible_D [OF assms(1)])
  then show "state (agents m2 ! i) = state (agents m ! i)" "pos (agents m2 ! i) = pos (agents m ! i)"
    using assms(2) visible_D(10) [OF assms(1)] by simp_all
qed

lemma neighbor_states_visible:
  assumes "visible m2 = visible m" "i < length (agents m)"
  shows "neighbor_states m2 i = neighbor_states m i"
  unfolding neighbor_states_def
  by (simp add: visible_nth(2) [OF assms] neighbors_view [OF visible_D(1,2,6,7) [OF assms(1)]])

lemma draw_index_visible:
  assumes "visible m2 = visible m" "i \<le> length (agents m)"
  shows "draw_index m2 i = draw_index m i"
proof -
  have eq: "map (\<lambda>j. draws_needed (state (agents m2 ! j)) (neighbor_states m2 j)
                (chaos_bias m2) (disable_chaotic m2)) [0..<i]
      = map (\<lambda>j. draws_needed (state (agents m ! j)) (neighbor_states m j)
                (chaos_bias m) (disable_chaotic m)) [0..<i]"
    using assms(2)
    by (intro map_cong refl)
      (simp add: visible_nth(1) [OF assms(1)] neighbor_states_visible [OF assms(1)]
         visible_D(4,5) [OF assms(1)])
  show ?thesis by (simp only: draw_index_def visible_D(9) [OF assms(1)] eq)
qed

lemma committed_visible:
  assumes "visible m2 = visible m" "i < length (agents m)"
  shows "committed m2 i = committed m i"
  using assms(2)
  by (simp add: committed_def visible_nth(1) [OF assms] neighbor_states_visible [OF assms]
      draw_index_visible [OF assms(1)] visible_D(3,4,5,8) [OF assms(1)])

lemma well_formed_visible:
  assumes "visible m2 = visible m"
  shows "well_formed m2 = well_formed m"
proof -
  have "well_formed n = list_all (\<lambda>s. s \<in> set all_states) (map state (agents n))" for n
    by (simp add: well_formed_def list_all_iff)
  then show ?thesis by (simp add: visible_D(7) [OF assms])
qed

lemma visible_collect: "visible (collect m) = visible m"
  by (simp add: visible_def collect_def)

lemma visible_stage: "visible ((stage m k)\<lparr>random_pos := random_pos m\<rparr>) = visible m"
  by (simp add: visible_def stage_fields stage_view)

lemma model_step_eq:
  assumes "well_formed m"
  shows "NFACAModel_step m = Inr (advance_all (stage (collect m) (length (agents m))))"
proof -
  have "well_formed (collect m)"
    using assms by (simp add: well_formed_visible [OF visible_collect])
  from schedule_step_eq [OF this] show ?thesis
    by (simp add: NFACAModel_step_def collect_def)
qed

section \<open>The scenario of the specification\<close>

lemma length_cells:
  "length (concat (map (\<lambda>x. map (\<lambda>y. (x, y)) [0..<h]) [0..<w])) = w * h"
  by (induction w) simp_all

lemma example_grid_well_formed: "well_formed (example_grid dc)"
  by (simp add: well_formed_def example_grid_def all_states_def list_all_iff)

lemma example_grid_length: "length (agents (example_grid dc)) = 9"
  by (simp add: example_grid_def length_cells)

lemma scenario_enabled:
  "map state (agents (projr (NFACAModel_step (example_grid 0)))) = replicate 9 ''Chaotic''"
  by code_simp

lemma scenario_disabled:
  "map state (agents (projr (NFACAModel_step (example_grid 1)))) = replicate 9 ''Dying''"
  by code_simp

lemma scenario_counts:
  "count_state (projr (NFACAModel_step (example_grid 0))) ''Chaotic'' = 9"
  "count_state (projr (NFACAModel_step (example_grid 1))) ''Dying'' = 9"
  by code_simp+

section \<open>One step of the simulation\<close>

lemma advance_all_fields:
  "width (advance_all m) = width m" "height (advance_all m) = height m"
  "branch_prob (advance_all m) = branch_prob m" "chaos_bias (advance_all m) = chaos_bias m"
  "disable_chaotic (advance_all m) = disable_chaotic m" "model_vars (advance_all m) = model_vars m"
  "random_draws (advance_all m) = random_draws m" "random_pos (advance_all m) = random_pos m"
  "length (agents (advance_all m)) = length (agents m)"
  "map pos (agents (advance_all m)) = map pos (agents m)"
  by (simp_all add: advance_all_def advance_def)

lemma model_step_facts:
  assumes "well_formed m"
  shows "\<exists>m'. NFACAModel_step m = Inr m'
    \<and> m' = advance_all (stage (collect m) (length (agents m)))
    \<and> well_formed m' \<and> length (agents m') = length (agents m)
    \<and> width m' = width m \<and> height m' = height m \<and> branch_prob m' = branch_prob m
    \<and> chaos_bias m' = chaos_bias m \<and> disable_chaotic m' = disable_chaotic m
    \<and> random_draws m' = random_draws m \<and> map pos (agents m') = map pos (agents m)
    \<and> model_vars m' = model_vars m @ [reporters m]
    \<and> (\<forall>i<length (agents m). committed m i = Inr (state (agents m' ! i)))
    \<and> (disable_chaotic m \<noteq> 0 \<longrightarrow> list_all (\<lambda>a. state a \<noteq> ''Chaotic'') (agents m'))"
proof -
  define m' where "m' = advance_all (stage (collect m) (length (agents m)))"
  have wfc: "well_formed (collect m)"
    using assms by (simp add: well_formed_visible [OF visible_collect])
  have len_c: "length (agents (collect m)) = length (agents m)"
    by (simp add: collect_def)
  have step: "NFACAModel_step m = Inr m'"
    unfolding m'_def by (rule model_step_eq [OF assms])
  have len: "length (agents m') = length (agents m)"
    by (simp add: m'_def advance_all_fields stage_fields len_c)
  have st: "committed m i = Inr (state (agents m' ! i))" if "i < length (agents m)" for i
  proof -
    have "committed (collect m) i = Inr (state (agents m' ! i))"
      using committed_state [OF wfc, of i] that by (simp add: m'_def len_c)
    then show ?thesis using committed_visible [OF visible_collect that] by simp
  qed
  have rng: "state (agents m' ! i) \<in> set all_states
      \<and> (disable_chaotic m \<noteq> 0 \<longrightarrow> state (agents m' ! i) \<noteq> ''Chaotic'')"
    if "i < length (agents m)" for i
    using committed_ok [OF assms that] st [OF that] by auto
  have wf': "well_formed m'"
    unfolding well_formed_def list_all_length using rng len by simp
  have nc: "list_all (\<lambda>a. state a \<noteq> ''Chaotic'') (agents m')" if "disable_chaotic m \<noteq> 0"
    unfolding list_all_length using rng len that by simp
  have fields: "width m' = width m" "height m' = height m" "branch_prob m' = branch_prob m"
    "chaos_bias m' = chaos_bias m" "disable_chaotic m' = disable_chaotic m"
    "random_draws m' = random_draws m" "model_vars m' = model_vars m @ [reporters m]"
    by (simp_all add: m'_def advance_all_fields stage_fields collect_eq)
  have ps: "map pos (agents m') = map pos (agents m)"
    by (simp add: m'_def advance_all_fields stage_view collect_def)
  show ?thesis
    using step m'_def wf' len fields ps st nc by blast
qed

lemma phase_one_collect:
  assumes "well_formed m"
  shows "step_all [0..<length (agents m)] (collect m) = Inr (stage (collect m) (length (agents m)))"
proof -
  have "well_formed (collect m)"
    using assms by (simp add: well_formed_visible [OF visible_collect])
  from phase_one [OF this, of "length (agents m)"] show ?thesis by (simp add: collect_def)
qed

lemma committed_unfold:
  "committed m i = computeNext (state (agents m ! i)) (neighbor_states m i) (branch_prob m)
     (chaos_bias m) (disable_chaotic m) (random_draws m (draw_index m i))"
  by (simp add: committed_def)

text \<open>
  Claim C2. On a model whose cells are in the four states, one call of \<open>step\<close> returns.
  Its compute phase leaves every visible state, every position, every parameter and the
  collected series as they were and moves only the staged slots and the generator; the
  commit follows the whole compute phase. The state committed to cell \<open>i\<close> is
  \<open>computeNext\<close> of the state of the cell before the step, the states of its neighbours
  before the step, the parameters and the draw the cell takes. Hence two models that
  differ only in their staged slots and collected series commit the same states: a
  staged, that is already updated, value of a neighbour is never read. In a run from
  construction the neighbours of a cell are eight (\<open>run_grid\<close>).
\<close>

theorem simultaneous_update:
  assumes "well_formed m"
  shows "\<exists>mid m'.
      step_all [0..<length (agents m)] (collect m) = Inr mid
    \<and> visible (mid\<lparr>random_pos := random_pos m\<rparr>) = visible m
    \<and> model_vars mid = model_vars (collect m)
    \<and> NFACAModel_step m = Inr m' \<and> m' = advance_all mid
    \<and> length (agents m') = length (agents m)
    \<and> (\<forall>i<length (agents m).
          computeNext (state (agents m ! i)) (neighbor_states m i) (branch_prob m)
            (chaos_bias m) (disable_chaotic m) (random_draws m (draw_index m i))
          = Inr (state (agents m' ! i)))
    \<and> (\<forall>m2. visible m2 = visible m \<longrightarrow>
          (\<exists>m2'. NFACAModel_step m2 = Inr m2' \<and> map state (agents m2') = map state (agents m')))"
proof -
  obtain m' where m': "NFACAModel_step m = Inr m'"
      "m' = advance_all (stage (collect m) (length (agents m)))"
      "length (agents m') = length (agents m)"
      "\<forall>i<length (agents m). committed m i = Inr (state (agents m' ! i))"
    using model_step_facts [OF assms] by blast
  let ?mid = "stage (collect m) (length (agents m))"
  have p1: "step_all [0..<length (agents m)] (collect m) = Inr ?mid"
    by (rule phase_one_collect [OF assms])
  have "random_pos (collect m) = random_pos m" by (simp add: collect_def)
  then have vis: "visible (?mid\<lparr>random_pos := random_pos m\<rparr>) = visible m"
    using visible_stage [of "collect m" "length (agents m)"] visible_collect [of m] by simp
  have two: "\<exists>m2'. NFACAModel_step m2 = Inr m2' \<and> map state (agents m2') = map state (agents m')"
    if v: "visible m2 = visible m" for m2
  proof -
    have "well_formed m2" using assms by (simp add: well_formed_visible [OF v])
    then obtain m2' where m2': "NFACAModel_step m2 = Inr m2'"
        "length (agents m2') = length (agents m2)"
        "\<forall>i<length (agents m2). committed m2 i = Inr (state (agents m2' ! i))"
      using model_step_facts [of m2] by blast
    have len2: "length (agents m2) = length (agents m)" by (rule visible_D(10) [OF v])
    have "map state (agents m2') = map state (agents m')"
    proof (rule nth_equalityI)
      show "length (map state (agents m2')) = length (map state (agents m'))"
        by (simp add: m2'(2) m'(3) len2)
    next
      fix i assume "i < length (map state (agents m2'))"
      then have i: "i < length (agents m)" by (simp add: m2'(2) len2)
      have "Inr (state (agents m2' ! i)) = committed m2 i" using m2'(3) i len2 by simp
      also have "\<dots> = committed m i" by (rule committed_visible [OF v i])
      also have "\<dots> = Inr (state (agents m' ! i))" using m'(4) i by simp
      finally show "map state (agents m2') ! i = map state (agents m') ! i"
        using i by (simp add: m2'(2) m'(3) len2)
    qed
    with m2'(1) show ?thesis by blast
  qed
  have mv: "model_vars ?mid = model_vars (collect m)" by (simp add: stage_fields)
  show ?thesis
    using p1 vis mv m'(1,2,3) m'(4) [unfolded committed_unfold] two by blast
qed

theorem simultaneous_update_witness:
  "well_formed (example_grid 0)
   \<and> (\<exists>m'. NFACAModel_step (example_grid 0) = Inr m'
        \<and> length (agents m') = 9
        \<and> (\<forall>i<9. computeNext (state (agents (example_grid 0) ! i))
                    (neighbor_states (example_grid 0) i) 1 (1 / 2) 0
                    (constant_draws (1 / 2) (draw_index (example_grid 0) i))
                  = Inr (state (agents m' ! i))))"
proof -
  have p: "branch_prob (example_grid 0) = 1" "chaos_bias (example_grid 0) = 1 / 2"
    "disable_chaotic (example_grid 0) = 0" "random_draws (example_grid 0) = constant_draws (1 / 2)"
    by (simp_all add: example_grid_def)
  show ?thesis
    using simultaneous_update [OF example_grid_well_formed [of 0]] example_grid_well_formed [of 0]
    unfolding example_grid_length p by blast
qed

section \<open>The grid\<close>

lemma wrap_distinct:
  fixes x w :: int
  assumes "3 \<le> w"
  shows "(x - 1) mod w \<noteq> x mod w" "(x + 1) mod w \<noteq> x mod w" "(x - 1) mod w \<noteq> (x + 1) mod w"
    "x mod w \<noteq> (x - 1) mod w" "x mod w \<noteq> (x + 1) mod w" "(x + 1) mod w \<noteq> (x - 1) mod w"
proof -
  have one: "\<not> w dvd 1" "\<not> w dvd - 1" using assms by (auto dest: zdvd_imp_le)
  have two: "\<not> w dvd 2" "\<not> w dvd - 2"
    using assms zdvd_imp_le [of w 2] by auto
  show "(x - 1) mod w \<noteq> x mod w" using one by (simp add: mod_eq_dvd_iff)
  then show "x mod w \<noteq> (x - 1) mod w" by simp
  show "(x + 1) mod w \<noteq> x mod w" using one by (simp add: mod_eq_dvd_iff)
  then show "x mod w \<noteq> (x + 1) mod w" by simp
  show "(x - 1) mod w \<noteq> (x + 1) mod w" using two by (simp add: mod_eq_dvd_iff)
  then show "(x + 1) mod w \<noteq> (x - 1) mod w" by simp
qed

lemma get_neighborhood_eight:
  assumes "3 \<le> width m" "3 \<le> height m"
  shows "get_neighborhood m (x, y) =
     [((x - 1) mod int (width m), (y - 1) mod int (height m)),
      (x mod int (width m), (y - 1) mod int (height m)),
      ((x + 1) mod int (width m), (y - 1) mod int (height m)),
      ((x - 1) mod int (width m), y mod int (height m)),
      ((x + 1) mod int (width m), y mod int (height m)),
      ((x - 1) mod int (width m), (y + 1) mod int (height m)),
      (x mod int (width m), (y + 1) mod int (height m)),
      ((x + 1) mod int (width m), (y + 1) mod int (height m))]"
proof -
  have w: "3 \<le> int (width m)" and h: "3 \<le> int (height m)" using assms by simp_all
  show ?thesis
    by (simp add: get_neighborhood_def torus_adj_def wrap_distinct [OF w] wrap_distinct [OF h])
qed

lemma grid_positions_product:
  "concat (map (\<lambda>x. map (\<lambda>y. (int x, int y)) [0..<h]) [0..<w])
     = map (\<lambda>(x, y). (int x, int y)) (List.product [0..<w] [0..<h])"
  by (simp add: product_concat_map map_concat o_def)

lemma grid_positions_distinct:
  "distinct (concat (map (\<lambda>x. map (\<lambda>y. (int x, int y)) [0..<h]) [0..<w]))"
  unfolding grid_positions_product
  by (auto simp: distinct_map distinct_product inj_on_def)

lemma grid_positions_member:
  assumes "0 < w" "0 < h"
  shows "(a mod int w, b mod int h) \<in> set (concat (map (\<lambda>x. map (\<lambda>y. (int x, int y)) [0..<h]) [0..<w]))"
proof -
  have "(nat (a mod int w), nat (b mod int h)) \<in> set (List.product [0..<w] [0..<h])"
    using assms by (simp add: nat_less_iff)
  moreover have "(a mod int w, b mod int h)
      = (\<lambda>(x, y). (int x, int y)) (nat (a mod int w), nat (b mod int h))"
    using assms by simp
  ultimately show ?thesis
    unfolding grid_positions_product set_map by (rule image_eqI [rotated])
qed

lemma one_agent_per_coordinate:
  assumes "one_per_cell m" "0 < width m" "0 < height m"
  shows "length (filter (\<lambda>n. pos n = (a mod int (width m), b mod int (height m))) (agents m)) = 1"
proof -
  let ?c = "(a mod int (width m), b mod int (height m))"
  have "length (filter (\<lambda>n. pos n = ?c) (agents m)) = length (filter (\<lambda>p. p = ?c) (map pos (agents m)))"
    by (simp add: filter_map o_def)
  also have "\<dots> = card ({p. p = ?c} \<inter> set (map pos (agents m)))"
    using assms(1) grid_positions_distinct [of "height m" "width m"]
    by (simp only: one_per_cell_def distinct_length_filter)
  also have "{p. p = ?c} \<inter> set (map pos (agents m)) = {?c}"
    using assms(1) grid_positions_member [OF assms(2,3), of a b]
    by (auto simp: one_per_cell_def)
  finally show ?thesis by simp
qed

lemma eight_neighbors:
  assumes "one_per_cell m" "3 \<le> width m" "3 \<le> height m"
  shows "length (neighbor_states m i) = 8"
proof -
  obtain x y where p: "pos (agents m ! i) = (x, y)" by (cases "pos (agents m ! i)")
  have w: "0 < width m" and h: "0 < height m" using assms(2,3) by simp_all
  show ?thesis
    by (simp add: neighbor_states_def get_neighbors_def p get_neighborhood_eight [OF assms(2,3)]
        one_agent_per_coordinate [OF assms(1) w h])
qed

lemma one_per_cell_init:
  assumes "NFACAModel_init initial_alive bp cb dc draws = Inr m"
  shows "one_per_cell m"
proof -
  let ?cells = "concat (map (\<lambda>x. map (\<lambda>y. (x, y)) [0..<20]) [0..<20::nat]) :: (nat \<times> nat) list"
  let ?new = "\<lambda>(k, (x, y)).
      (let st = (if draws k < initial_alive then ''Alive'' else ''Stable'')
       in \<lparr>pos = (int x, int y), state = st, next_state = st\<rparr>)"
  have m: "width m = 20" "height m = 20" "agents m = map ?new (enumerate 0 ?cells)"
    using assms by (auto simp: NFACAModel_init_def Let_def)
  have "map pos (agents m) = map ((\<lambda>(x, y). (int x, int y)) \<circ> snd) (enumerate 0 ?cells)"
    unfolding m(3) by (simp add: split_def Let_def)
  also have "\<dots> = map (\<lambda>(x, y). (int x, int y)) ?cells"
    by (simp only: map_map [symmetric] map_snd_enumerate)
  also have "\<dots> = concat (map (\<lambda>x. map (\<lambda>y. (int x, int y)) [0..<20]) [0..<20])"
    by (simp add: map_concat o_def)
  finally show ?thesis by (simp add: one_per_cell_def m(1,2))
qed

section \<open>Construction and runs\<close>

lemma init_facts:
  "\<exists>m. NFACAModel_init initial_alive bp cb dc draws = Inr m
     \<and> width m = 20 \<and> height m = 20 \<and> length (agents m) = 400
     \<and> branch_prob m = bp \<and> chaos_bias m = cb \<and> disable_chaotic m = dc
     \<and> model_vars m = [] \<and> random_draws m = draws \<and> random_pos m = 400
     \<and> list_all (\<lambda>a. state a = ''Alive'' \<or> state a = ''Stable'') (agents m)"
  by (simp add: NFACAModel_init_def Let_def length_cells list_all_iff split_def)

lemma alive_or_stable:
  assumes "list_all (\<lambda>a. state a = ''Alive'' \<or> state a = ''Stable'') (agents m)"
  shows "well_formed m" "list_all (\<lambda>a. state a \<noteq> ''Chaotic'') (agents m)"
  using assms by (auto simp: well_formed_def list_all_iff all_states_def)

lemma steps_facts:
  assumes "well_formed m"
  shows "\<exists>m'. steps n m = Inr m' \<and> well_formed m'
     \<and> length (agents m') = length (agents m) \<and> width m' = width m \<and> height m' = height m
     \<and> disable_chaotic m' = disable_chaotic m
     \<and> length (model_vars m') = length (model_vars m) + n
     \<and> take (length (model_vars m)) (model_vars m') = model_vars m
     \<and> (disable_chaotic m \<noteq> 0 \<longrightarrow> list_all (\<lambda>a. state a \<noteq> ''Chaotic'') (agents m) \<longrightarrow>
          list_all (\<lambda>a. state a \<noteq> ''Chaotic'') (agents m'))"
  using assms
proof (induction n arbitrary: m)
  case 0
  then show ?case by simp
next
  case (Suc n)
  obtain m1 where m1: "NFACAModel_step m = Inr m1" "well_formed m1"
      "length (agents m1) = length (agents m)" "width m1 = width m" "height m1 = height m"
      "disable_chaotic m1 = disable_chaotic m" "model_vars m1 = model_vars m @ [reporters m]"
      "disable_chaotic m \<noteq> 0 \<longrightarrow> list_all (\<lambda>a. state a \<noteq> ''Chaotic'') (agents m1)"
    using model_step_facts [OF Suc.prems] by blast
  obtain m' where m': "steps n m1 = Inr m'" "well_formed m'"
      "length (agents m') = length (agents m1)" "width m' = width m1" "height m' = height m1"
      "disable_chaotic m' = disable_chaotic m1"
      "length (model_vars m') = length (model_vars m1) + n"
      "take (length (model_vars m1)) (model_vars m') = model_vars m1"
      "disable_chaotic m1 \<noteq> 0 \<longrightarrow> list_all (\<lambda>a. state a \<noteq> ''Chaotic'') (agents m1) \<longrightarrow>
          list_all (\<lambda>a. state a \<noteq> ''Chaotic'') (agents m')"
    using Suc.IH [OF m1(2)] by blast
  have "take (length (model_vars m)) (take (length (model_vars m1)) (model_vars m'))
      = take (length (model_vars m)) (model_vars m1)"
    by (simp only: m'(8))
  then have tk: "take (length (model_vars m)) (model_vars m') = model_vars m"
    by (simp add: m1(7) min_def)
  show ?case
    using m1 m' tk by (simp add: m1(1))
qed

lemma run_total:
  "\<exists>m'. run initial_alive bp cb dc draws n = Inr m' \<and> well_formed m' \<and> disable_chaotic m' = dc
     \<and> length (model_vars m') = n
     \<and> (dc \<noteq> 0 \<longrightarrow> list_all (\<lambda>a. state a \<noteq> ''Chaotic'') (agents m'))"
proof -
  obtain m where m: "NFACAModel_init initial_alive bp cb dc draws = Inr m"
      "disable_chaotic m = dc" "model_vars m = []"
      "list_all (\<lambda>a. state a = ''Alive'' \<or> state a = ''Stable'') (agents m)"
    using init_facts [of initial_alive bp cb dc draws] by blast
  obtain m' where m': "steps n m = Inr m'" "well_formed m'"
      "disable_chaotic m' = disable_chaotic m"
      "length (model_vars m') = length (model_vars m) + n"
      "disable_chaotic m \<noteq> 0 \<longrightarrow> list_all (\<lambda>a. state a \<noteq> ''Chaotic'') (agents m) \<longrightarrow>
          list_all (\<lambda>a. state a \<noteq> ''Chaotic'') (agents m')"
    using steps_facts [OF alive_or_stable(1) [OF m(4)], of n] by blast
  have "run initial_alive bp cb dc draws n = Inr m'"
    by (simp add: run_def m(1) m'(1))
  then show ?thesis
    using m' m(2,3) alive_or_stable(2) [OF m(4)] by simp
qed

lemma steps_positions:
  assumes "well_formed m" "steps n m = Inr m'"
  shows "map pos (agents m') = map pos (agents m)" "width m' = width m" "height m' = height m"
proof -
  have "map pos (agents m') = map pos (agents m) \<and> width m' = width m \<and> height m' = height m"
    using assms
  proof (induction n arbitrary: m)
    case 0
    then show ?case by simp
  next
    case (Suc n)
    obtain m1 where m1: "NFACAModel_step m = Inr m1" "well_formed m1"
        "map pos (agents m1) = map pos (agents m)" "width m1 = width m" "height m1 = height m"
      using model_step_facts [OF Suc.prems(1)] by blast
    have "steps n m1 = Inr m'" using Suc.prems(2) by (simp add: m1(1))
    from Suc.IH [OF m1(2) this] show ?case by (simp add: m1(3,4,5))
  qed
  then show "map pos (agents m') = map pos (agents m)" "width m' = width m" "height m' = height m"
    by simp_all
qed

lemma run_grid:
  assumes "run initial_alive bp cb dc draws n = Inr m'"
  shows "width m' = 20" "height m' = 20" "one_per_cell m'" "length (neighbor_states m' i) = 8"
proof -
  obtain m where m: "NFACAModel_init initial_alive bp cb dc draws = Inr m"
      "width m = 20" "height m = 20"
      "list_all (\<lambda>a. state a = ''Alive'' \<or> state a = ''Stable'') (agents m)"
    using init_facts [of initial_alive bp cb dc draws] by blast
  have st: "steps n m = Inr m'" using assms by (simp add: run_def m(1))
  note p = steps_positions [OF alive_or_stable(1) [OF m(4)] st]
  show w: "width m' = 20" and h: "height m' = 20" using p m(2,3) by simp_all
  show o: "one_per_cell m'"
    using one_per_cell_init [OF m(1)] by (simp add: one_per_cell_def p)
  show "length (neighbor_states m' i) = 8"
    by (rule eight_neighbors [OF o]) (simp_all add: w h)
qed

lemma count_state_sum:
  assumes "well_formed m"
  shows "count_state m ''Alive'' + count_state m ''Dying'' + count_state m ''Stable''
           + count_state m ''Chaotic'' = length (agents m)"
proof -
  have "list_all (\<lambda>a. state a \<in> set all_states) xs \<Longrightarrow>
      length (filter (\<lambda>a. state a = ''Alive'') xs) + length (filter (\<lambda>a. state a = ''Dying'') xs)
      + length (filter (\<lambda>a. state a = ''Stable'') xs)
      + length (filter (\<lambda>a. state a = ''Chaotic'') xs) = length xs" for xs :: "NFACellAgent list"
    by (induction xs) (auto simp: all_states_def)
  then show ?thesis using assms by (simp add: count_state_def well_formed_def)
qed

text \<open>
  Claim C6. After construction and any number of steps, the counts of the four states
  sum to width times height, which is 400; there are 400 cells, each is in one of the
  four states, and their positions are the coordinates of the grid, each once: no cell
  is created or destroyed.
\<close>

theorem population_conserved:
  "\<exists>m'. run initial_alive bp cb dc draws n = Inr m'
     \<and> count_state m' ''Alive'' + count_state m' ''Dying'' + count_state m' ''Stable''
          + count_state m' ''Chaotic'' = width m' * height m'
     \<and> width m' * height m' = 400
     \<and> length (agents m') = 400
     \<and> list_all (\<lambda>a. state a \<in> set [''Alive'', ''Dying'', ''Stable'', ''Chaotic'']) (agents m')
     \<and> one_per_cell m'"
proof -
  obtain m where m: "NFACAModel_init initial_alive bp cb dc draws = Inr m"
      "width m = 20" "height m = 20" "length (agents m) = 400"
      "list_all (\<lambda>a. state a = ''Alive'' \<or> state a = ''Stable'') (agents m)"
    using init_facts [of initial_alive bp cb dc draws] by blast
  have wf: "well_formed m" by (rule alive_or_stable(1) [OF m(5)])
  obtain m' where m': "steps n m = Inr m'" "well_formed m'"
      "length (agents m') = length (agents m)" "width m' = width m" "height m' = height m"
    using steps_facts [OF wf, of n] by blast
  have r: "run initial_alive bp cb dc draws n = Inr m'"
    by (simp add: run_def m(1) m'(1))
  moreover have "list_all (\<lambda>a. state a \<in> set [''Alive'', ''Dying'', ''Stable'', ''Chaotic'']) (agents m')"
    using m'(2) by (simp add: well_formed_def all_states_def)
  ultimately show ?thesis
    using count_state_sum [OF m'(2)] m' m(2,3,4) run_grid(3) [OF r] by simp
qed

text \<open>
  Claim C1. When \<open>disable_chaotic\<close> is set (any value but 0 prunes; \<open>True\<close> is 1), no
  cell is Chaotic after construction and any number of steps, and no candidate list of
  the rewired table contains Chaotic. The override turns a resolved Chaotic into Stable
  and never yields Chaotic when \<open>disable_chaotic\<close> is 1, so whatever a cell's step stages
  is not Chaotic.
\<close>

theorem chaotic_excluded:
  "(dc \<noteq> 0 \<longrightarrow>
      (\<exists>m'. run initial_alive bp cb dc draws n = Inr m'
            \<and> list_all (\<lambda>a. state a \<noteq> ''Chaotic'') (agents m'))
      \<and> list_all (\<lambda>kv. ''Chaotic'' \<notin> set (snd kv)) (rewire cb dc))
   \<and> override 1 ''Chaotic'' = ''Stable'' \<and> override 1 s \<noteq> ''Chaotic''
   \<and> (disable_chaotic m = 1 \<and> i < length (agents m) \<and> NFACellAgent_step m i = Inr m1
        \<longrightarrow> next_state (agents m1 ! i) \<noteq> ''Chaotic'')"
proof -
  have table: "list_all (\<lambda>kv. ''Chaotic'' \<notin> set (snd kv)) (rewire cb dc)" if "dc \<noteq> 0"
    unfolding list_all_iff
  proof
    fix kv assume "kv \<in> set (rewire cb dc)"
    from candidates_facts(3) [OF rewire_entry [OF this] that]
    show "''Chaotic'' \<notin> set (snd kv)" .
  qed
  have ov: "override 1 ''Chaotic'' = ''Stable''" "override 1 s \<noteq> ''Chaotic''"
    by (simp_all add: override_def)
  show ?thesis
    using run_total [of initial_alive bp cb dc draws n] table ov
      staged_never_chaotic [of m i m1] by blast
qed

theorem chaotic_excluded_witness:
  "(1::int) \<noteq> 0
   \<and> (\<exists>m'. run (3 / 10) (1 / 2) (4 / 5) 1 (constant_draws (1 / 4)) 3 = Inr m'
            \<and> list_all (\<lambda>a. state a \<noteq> ''Chaotic'') (agents m'))
   \<and> list_all (\<lambda>kv. ''Chaotic'' \<notin> set (snd kv)) (rewire (4 / 5) 1)
   \<and> override 1 ''Chaotic'' = ''Stable''
   \<and> disable_chaotic (example_grid 1) = 1 \<and> 0 < length (agents (example_grid 1))
   \<and> NFACellAgent_step (example_grid 1) 0 = Inr (projr (NFACellAgent_step (example_grid 1) 0))
   \<and> next_state (agents (projr (NFACellAgent_step (example_grid 1) 0)) ! 0) \<noteq> ''Chaotic''"
proof -
  have a: "disable_chaotic (example_grid 1) = 1" by (simp add: example_grid_def)
  have b: "0 < length (agents (example_grid 1))" by (simp add: example_grid_length)
  have "\<exists>m'. NFACellAgent_step (example_grid 1) 0 = Inr m'"
    using agent_step_stage [OF example_grid_well_formed, of 0 1] b by (simp add: stage_zero)
  then have c: "NFACellAgent_step (example_grid 1) 0 = Inr (projr (NFACellAgent_step (example_grid 1) 0))"
    by auto
  show ?thesis
    using chaotic_excluded [of 1 "3 / 10" "1 / 2" "4 / 5" "constant_draws (1 / 4)" 3 "''Chaotic''"
        "example_grid 1" 0 "projr (NFACellAgent_step (example_grid 1) 0)"] a b c
    by simp
qed

section \<open>The collected series\<close>

lemma steps_add:
  "steps (a + b) m = (case steps a m of Inl e \<Rightarrow> Inl e | Inr m' \<Rightarrow> steps b m')"
  by (induction a arbitrary: m) (auto split: sum.split)

lemma steps_series:
  assumes "well_formed m" "k < n"
  shows "\<exists>mk m'. steps k m = Inr mk \<and> steps n m = Inr m'
          \<and> model_vars m' ! (length (model_vars m) + k) = reporters mk"
proof -
  obtain mk where mk: "steps k m = Inr mk" "well_formed mk"
      "length (model_vars mk) = length (model_vars m) + k"
    using steps_facts [OF assms(1), of k] by blast
  obtain m1 where m1: "NFACAModel_step mk = Inr m1" "well_formed m1"
      "model_vars m1 = model_vars mk @ [reporters mk]"
    using model_step_facts [OF mk(2)] by blast
  obtain m' where m': "steps (n - Suc k) m1 = Inr m'"
      "take (length (model_vars m1)) (model_vars m') = model_vars m1"
    using steps_facts [OF m1(2), of "n - Suc k"] by blast
  have "steps (Suc (n - Suc k)) mk = Inr m'"
    by (simp add: m1(1) m'(1))
  then have "steps (k + Suc (n - Suc k)) m = Inr m'"
    by (simp only: steps_add mk(1) sum.case)
  moreover have "k + Suc (n - Suc k) = n" using assms(2) by simp
  ultimately have run_n: "steps n m = Inr m'" by simp
  have "model_vars m' ! (length (model_vars m) + k)
      = take (length (model_vars m1)) (model_vars m') ! (length (model_vars m) + k)"
    by (simp add: m1(3) mk(3))
  also have "\<dots> = reporters mk"
    by (simp only: m'(2)) (simp add: m1(3) mk(3) nth_append)
  finally show ?thesis using mk(1) run_n by blast
qed

text \<open>
  Claim C9. A call of \<open>step\<close> appends to the collected series the four counts of the
  model it is called on, before any transition of that step. So in a run of \<open>n\<close> steps
  the series has \<open>n\<close> entries and entry \<open>k\<close> holds the counts of the model after \<open>k\<close>
  steps, the start of step \<open>k + 1\<close>.
\<close>

theorem counts_before_step:
  "(well_formed m \<longrightarrow>
      (\<exists>m'. NFACAModel_step m = Inr m'
         \<and> model_vars m' = model_vars m @
             [(count_state m ''Alive'', count_state m ''Dying'',
               count_state m ''Stable'', count_state m ''Chaotic'')]))
   \<and> (k < n \<longrightarrow>
      (\<exists>mk m'. run initial_alive bp cb dc draws k = Inr mk
         \<and> run initial_alive bp cb dc draws n = Inr m'
         \<and> length (model_vars m') = n
         \<and> model_vars m' ! k =
             (count_state mk ''Alive'', count_state mk ''Dying'',
              count_state mk ''Stable'', count_state mk ''Chaotic'')))"
proof -
  have one: "\<exists>m'. NFACAModel_step m = Inr m' \<and> model_vars m' = model_vars m @ [reporters m]"
    if "well_formed m"
    using model_step_facts [OF that] by blast
  have series: "\<exists>mk m'. run initial_alive bp cb dc draws k = Inr mk
         \<and> run initial_alive bp cb dc draws n = Inr m'
         \<and> length (model_vars m') = n \<and> model_vars m' ! k = reporters mk" if kn: "k < n"
  proof -
    obtain m0 where m0: "NFACAModel_init initial_alive bp cb dc draws = Inr m0"
        "model_vars m0 = []"
        "list_all (\<lambda>a. state a = ''Alive'' \<or> state a = ''Stable'') (agents m0)"
      using init_facts [of initial_alive bp cb dc draws] by blast
    have wf: "well_formed m0" by (rule alive_or_stable(1) [OF m0(3)])
    obtain mk m' where s: "steps k m0 = Inr mk" "steps n m0 = Inr m'"
        "model_vars m' ! (length (model_vars m0) + k) = reporters mk"
      using steps_series [OF wf kn] by blast
    obtain m2 where m2: "steps n m0 = Inr m2"
        "length (model_vars m2) = length (model_vars m0) + n"
      using steps_facts [OF wf, of n] by blast
    have "length (model_vars m') = n" using m2 s(2) by (simp add: m0(2))
    then show ?thesis using s by (simp add: run_def m0(1,2))
  qed
  show ?thesis using one series by (simp add: reporters_def)
qed

theorem counts_before_step_witness:
  "well_formed (example_grid 0)
   \<and> (\<exists>m'. NFACAModel_step (example_grid 0) = Inr m'
         \<and> model_vars m' = model_vars (example_grid 0) @
             [(count_state (example_grid 0) ''Alive'', count_state (example_grid 0) ''Dying'',
               count_state (example_grid 0) ''Stable'', count_state (example_grid 0) ''Chaotic'')])
   \<and> (1::nat) < 3
   \<and> (\<exists>mk m'. run (3 / 10) (1 / 2) (1 / 5) 0 (constant_draws (1 / 4)) 1 = Inr mk
         \<and> run (3 / 10) (1 / 2) (1 / 5) 0 (constant_draws (1 / 4)) 3 = Inr m'
         \<and> length (model_vars m') = 3
         \<and> model_vars m' ! 1 =
             (count_state mk ''Alive'', count_state mk ''Dying'',
              count_state mk ''Stable'', count_state mk ''Chaotic''))"
  using counts_before_step [of "example_grid 0" 1 3 "3 / 10" "1 / 2" "1 / 5" 0 "constant_draws (1 / 4)"]
    example_grid_well_formed [of 0]
  by simp

section \<open>Construction with parameters out of range\<close>

text \<open>
  Claim C8 as stated fails: with \<open>initial_alive\<close> 2, \<open>branch_prob\<close> -1 and \<open>chaos_bias\<close> 5
  construction returns a model of 400 cells holding these values, and a step runs.
\<close>

theorem construction_accepts_out_of_range:
  "\<not> isl (NFACAModel_init 2 (- 1) 5 0 (constant_draws (1 / 2)))
   \<and> length (agents (projr (NFACAModel_init 2 (- 1) 5 0 (constant_draws (1 / 2))))) = 400
   \<and> branch_prob (projr (NFACAModel_init 2 (- 1) 5 0 (constant_draws (1 / 2)))) = - 1
   \<and> chaos_bias (projr (NFACAModel_init 2 (- 1) 5 0 (constant_draws (1 / 2)))) = 5
   \<and> \<not> isl (run 2 (- 1) 5 0 (constant_draws (1 / 2)) 1)"
proof -
  obtain m where "NFACAModel_init 2 (- 1) 5 0 (constant_draws (1 / 2)) = Inr m"
      "length (agents m) = 400" "branch_prob m = - 1" "chaos_bias m = 5"
    using init_facts [of 2 "- 1" 5 0 "constant_draws (1 / 2)"] by blast
  moreover obtain m' where "run 2 (- 1) 5 0 (constant_draws (1 / 2)) 1 = Inr m'"
    using run_total [of 2 "- 1" 5 0 "constant_draws (1 / 2)" 1] by blast
  ultimately show ?thesis by simp
qed

text \<open>
  Claim C8, amended. Construction checks no range and never fails: for every value of the
  parameters, inside or outside the unit interval, it returns a model of 400 cells, each
  Alive or Stable, that holds the parameters as given.
\<close>

theorem construction_never_fails:
  "\<exists>m. NFACAModel_init initial_alive bp cb dc draws = Inr m
     \<and> length (agents m) = 400 \<and> branch_prob m = bp \<and> chaos_bias m = cb
     \<and> disable_chaotic m = dc
     \<and> list_all (\<lambda>a. state a = ''Alive'' \<or> state a = ''Stable'') (agents m)"
  using init_facts [of initial_alive bp cb dc draws] by blast

section \<open>Length of the candidate lists\<close>

lemma choices_index_in_range:
  "\<exists>k<2. choices_index 2 [bp, 1 - bp] u = Inr k"
  using choices_index_two [of bp u] by (auto simp: numeral_2_eq_2)

text \<open>
  Claim C10. Every base entry has two candidates of which at most one is Chaotic,
  reordering keeps the length of a list, and every rewired entry has one or two
  candidates. So the lookup of a cell in one of the four states
  finds a list of one or two candidates; when the list is not a singleton it has two
  elements, as many as the weight list, and the weighted choice returns an index inside
  the list; the resolution returns one of the candidates. The step of an agent of a
  model whose cells are in the four states raises nothing.
\<close>

theorem candidates_one_or_two:
  "list_all (\<lambda>kv. length (snd kv) = 2 \<and> length (filter (\<lambda>s. s = ''Chaotic'') (snd kv)) \<le> 1)
     BASE_TRANSITIONS
   \<and> length (reorder cb xs) = length xs
   \<and> list_all (\<lambda>kv. length (snd kv) = 1 \<or> length (snd kv) = 2) (rewire cb dc)
   \<and> (st \<in> set all_states \<longrightarrow>
        (\<exists>ps. map_of (rewire cb dc) (st, input_symbol n) = Some ps
           \<and> (length ps = 1 \<or> length ps = 2)
           \<and> (length ps \<noteq> 1 \<longrightarrow>
                length ps = 2 \<and> length [bp, 1 - bp] = length ps
                \<and> (\<exists>k<length ps. choices_index (length ps) [bp, 1 - bp] u = Inr k))
           \<and> (\<exists>s\<in>set ps. resolve bp ps u = Inr s)))
   \<and> (well_formed m \<and> i < length (agents m) \<longrightarrow> (\<exists>m'. NFACellAgent_step m i = Inr m'))"
proof -
  have base: "list_all (\<lambda>kv. length (snd kv) = 2
      \<and> length (filter (\<lambda>s. s = ''Chaotic'') (snd kv)) \<le> 1) BASE_TRANSITIONS"
    using base_entries by (simp add: list_all_iff)
  have rewired: "list_all (\<lambda>kv. length (snd kv) = 1 \<or> length (snd kv) = 2) (rewire cb dc)"
    unfolding list_all_iff
  proof
    fix kv assume "kv \<in> set (rewire cb dc)"
    from candidates_facts(1) [OF rewire_entry [OF this]]
    show "length (snd kv) = 1 \<or> length (snd kv) = 2" .
  qed
  have cell: "\<exists>ps. map_of (rewire cb dc) (st, input_symbol n) = Some ps
           \<and> (length ps = 1 \<or> length ps = 2)
           \<and> (length ps \<noteq> 1 \<longrightarrow>
                length ps = 2 \<and> length [bp, 1 - bp] = length ps
                \<and> (\<exists>k<length ps. choices_index (length ps) [bp, 1 - bp] u = Inr k))
           \<and> (\<exists>s\<in>set ps. resolve bp ps u = Inr s)" if st: "st \<in> set all_states"
  proof -
    obtain ps where ps: "map_of (rewire cb dc) (st, input_symbol n) = Some ps"
      using candidates_exist [OF st] by blast
    have len: "length ps = 1 \<or> length ps = 2" by (rule candidates_facts(1) [OF ps])
    have "\<exists>k<length ps. choices_index (length ps) [bp, 1 - bp] u = Inr k" if "length ps = 2"
      using choices_index_in_range [of bp u] that by simp
    with ps len resolve_total [OF len, of bp u] show ?thesis by auto
  qed
  show ?thesis
    using base rewired cell agent_step_total [of m i] length_reorder [of cb xs] by blast
qed

theorem candidates_one_or_two_witness:
  "list_all (\<lambda>kv. length (snd kv) = 1 \<or> length (snd kv) = 2) (rewire (4 / 5) 1)
   \<and> ''Alive'' \<in> set all_states
   \<and> (\<exists>ps. map_of (rewire (4 / 5) 1) (''Alive'', input_symbol 3) = Some ps
         \<and> (length ps = 1 \<or> length ps = 2)
         \<and> (\<exists>s\<in>set ps. resolve (1 / 2) ps (1 / 4) = Inr s))
   \<and> well_formed (example_grid 0) \<and> 4 < length (agents (example_grid 0))
   \<and> (\<exists>m'. NFACellAgent_step (example_grid 0) 4 = Inr m')"
proof -
  have a: "''Alive'' \<in> set all_states" by (simp add: all_states_def)
  have b: "4 < length (agents (example_grid 0))" by (simp add: example_grid_length)
  show ?thesis
    using candidates_one_or_two [where cb = "4 / 5" and xs = "[''Chaotic'', ''Dying'']" and dc = 1
        and st = "''Alive''" and n = 3 and bp = "1 / 2" and u = "1 / 4" and m = "example_grid 0"
        and i = 4]
      a b example_grid_well_formed [of 0]
    by blast
qed

section \<open>Bias and the frequency of Chaotic\<close>

text \<open>
  A base entry that contains Chaotic holds it once, beside another state. With
  \<open>branch_prob = m / N\<close> and pruning off, Chaotic is selected on \<open>m\<close> of the \<open>N\<close> sample
  draws under a bias above 0.7 and on \<open>N - m\<close> of them under a bias below 0.3: the higher
  bias selects Chaotic at least as often exactly when \<open>branch_prob\<close> is at least one half.
\<close>

lemma chaotic_pair:
  assumes "map_of BASE_TRANSITIONS key = Some xs" "''Chaotic'' \<in> set xs"
  obtains y where "y \<noteq> ''Chaotic''" "xs = [''Chaotic'', y] \<or> xs = [y, ''Chaotic'']"
proof -
  obtain a b where ab: "xs = [a, b]"
    using base_entry(1) [OF assms(1)] by (auto simp: length_Suc_conv numeral_2_eq_2)
  have "\<not> (a = ''Chaotic'' \<and> b = ''Chaotic'')"
    using base_entry(3) [OF assms(1)] by (auto simp: ab)
  then show ?thesis using assms(2) that [of b] that [of a] by (auto simp: ab)
qed

lemma chaotic_count_by_bias:
  assumes "map_of BASE_TRANSITIONS key = Some xs" "''Chaotic'' \<in> set xs" "0 < N" "m \<le> N"
  shows "7 / 10 < cb \<Longrightarrow> chaotic_count (real m / real N) cb 0 key N = m"
    and "cb < 3 / 10 \<Longrightarrow> chaotic_count (real m / real N) cb 0 key N = N - m"
proof -
  obtain y where y: "y \<noteq> ''Chaotic''" "xs = [''Chaotic'', y] \<or> xs = [y, ''Chaotic'']"
    using chaotic_pair [OF assms(1,2)] by blast
  have look: "map_of (rewire cb 0) key = Some (reorder cb xs)"
    by (simp add: map_of_rewire assms(1) prune_def)
  show "chaotic_count (real m / real N) cb 0 key N = m" if "7 / 10 < cb"
  proof -
    have "reorder cb xs = [''Chaotic'', y]"
      using y by (auto simp: reorder_high [OF that] stable_partition_def)
    then show ?thesis
      using selection_count_two(1) [OF assms(3,4), of "''Chaotic''" y] y(1)
      by (simp add: chaotic_count_def look)
  qed
  show "chaotic_count (real m / real N) cb 0 key N = N - m" if "cb < 3 / 10"
  proof -
    have "reorder cb xs = [y, ''Chaotic'']"
      using y by (auto simp: reorder_low [OF that] stable_partition_def)
    then show ?thesis
      using selection_count_two(2) [OF assms(3,4), of y "''Chaotic''"] y(1)
      by (simp add: chaotic_count_def look)
  qed
qed

lemma bias_monotone_iff:
  assumes "map_of BASE_TRANSITIONS key = Some xs" "''Chaotic'' \<in> set xs" "0 < N" "m \<le> N"
  shows "(chaotic_count (real m / real N) (1 / 5) 0 key N
            \<le> chaotic_count (real m / real N) (4 / 5) 0 key N) = (N \<le> 2 * m)"
proof -
  have "chaotic_count (real m / real N) (4 / 5) 0 key N = m"
    by (rule chaotic_count_by_bias(1) [OF assms]) simp
  moreover have "chaotic_count (real m / real N) (1 / 5) 0 key N = N - m"
    by (rule chaotic_count_by_bias(2) [OF assms]) simp
  ultimately show ?thesis using assms(4) by auto
qed

text \<open>
  Claim C7 at \<open>branch_prob\<close> 0.2 and the key (Alive, H): under bias 0.8 the candidates are
  Chaotic then Dying and 2 of 10 equally likely draws select Chaotic; under bias 0.2 they
  are Dying then Chaotic and 8 of the 10 draws select Chaotic. The draw 0.5 selects
  Dying under the high bias and Chaotic under the low one.
\<close>

theorem bias_raises_chaotic_fails:
  "map_of (rewire (4 / 5) 0) (''Alive'', ''H'') = Some [''Chaotic'', ''Dying'']
   \<and> map_of (rewire (1 / 5) 0) (''Alive'', ''H'') = Some [''Dying'', ''Chaotic'']
   \<and> chaotic_count (1 / 5) (4 / 5) 0 (''Alive'', ''H'') 10 = 2
   \<and> chaotic_count (1 / 5) (1 / 5) 0 (''Alive'', ''H'') 10 = 8
   \<and> resolve (1 / 5) [''Chaotic'', ''Dying''] (1 / 2) = Inr ''Dying''
   \<and> resolve (1 / 5) [''Dying'', ''Chaotic''] (1 / 2) = Inr ''Chaotic''"
proof -
  have hi: "map_of (rewire (4 / 5) 0) (''Alive'', ''H'') = Some [''Chaotic'', ''Dying'']"
    by (simp add: map_of_rewire BASE_TRANSITIONS_def prune_def reorder_def)
  have lo: "map_of (rewire (1 / 5) 0) (''Alive'', ''H'') = Some [''Dying'', ''Chaotic'']"
    by (simp add: map_of_rewire BASE_TRANSITIONS_def prune_def reorder_def)
  have c_hi: "selection_count (1 / 5) [''Chaotic'', ''Dying''] 10 ''Chaotic'' = 2"
    using selection_count_two(1) [of 10 2 "''Chaotic''" "''Dying''"] by simp
  have c_lo: "selection_count (1 / 5) [''Dying'', ''Chaotic''] 10 ''Chaotic'' = 8"
    using selection_count_two(2) [of 10 2 "''Dying''" "''Chaotic''"] by simp
  show ?thesis
    by (simp add: chaotic_count_def hi lo c_hi c_lo resolve_two)
qed

end
